theory Spec2Isabelle
  imports Main "HOL-Library.Signed_Division"
begin

unbundle bit_operations_syntax

section \<open>The union-find program (union_find.c)\<close>

text \<open>
  The program keeps three globals: the arrays \<open>parent\<close> and \<open>rank\<close>, both
  \<open>int[100005]\<close> and zero-initialised, and the counter \<open>component_count\<close>.
  The arrays are modelled as total functions on indices; every access of the source
  is guarded by \<open>in_bounds\<close>, so that an access outside \<open>[0, 100005)\<close> is the
  value \<open>Inl OutOfBounds\<close>. C integers are \<open>int\<close>, and each place where C
  arithmetic could leave its type (remainder by zero, signed overflow) is a branch
  returning an error. A call that does not return is the value \<open>None\<close>.
\<close>

datatype error = OutOfBounds | DivByZero | Overflow | MalformedInput

definition CAP :: int where
  "CAP = 100005"

definition INT_MIN :: int where
  "INT_MIN = - 2147483648"

definition INT_MAX :: int where
  "INT_MAX = 2147483647"

definition LLONG_MIN :: int where
  "LLONG_MIN = - 9223372036854775808"

definition LLONG_MAX :: int where
  "LLONG_MAX = 9223372036854775807"

record uf =
  parent :: "int \<Rightarrow> int"
  rank :: "int \<Rightarrow> int"
  component_count :: int

text \<open>The globals before \<open>main\<close> runs: static storage is zero-initialised.\<close>

definition uf0 :: uf where
  "uf0 = \<lparr>parent = (\<lambda>_. 0), rank = (\<lambda>_. 0), component_count = 0\<rparr>"

definition in_bounds :: "int \<Rightarrow> bool" where
  "in_bounds i \<longleftrightarrow> 0 \<le> i \<and> i < CAP"

text \<open>Sequencing of calls that may fail (\<open>Some (Inl e)\<close>) or not return (\<open>None\<close>).\<close>

definition bind_res ::
  "(error + 'a) option \<Rightarrow> ('a \<Rightarrow> (error + 'b) option) \<Rightarrow> (error + 'b) option" where
  "bind_res m f =
     (case m of None \<Rightarrow> None | Some (Inl e) \<Rightarrow> Some (Inl e) | Some (Inr v) \<Rightarrow> f v)"

subsection \<open>find (lines 13-18)\<close>

text \<open>
  \<^verbatim>\<open>int find(int x) {
    if (parent[x] != x) { parent[x] = find(parent[x]); }
    return parent[x]; }\<close>
  The recursion follows parent pointers and need not end on an arbitrary array
  (a cycle), hence a partial function in the option monad.
\<close>

partial_function (option) find_uf :: "int \<Rightarrow> uf \<Rightarrow> (error + int \<times> uf) option" where
  "find_uf x s =
     (if \<not> in_bounds x then Some (Inl OutOfBounds)
      else if parent s x \<noteq> x then
        Option.bind (find_uf (parent s x) s)
          (\<lambda>res. case res of
             Inl e \<Rightarrow> Some (Inl e)
           | Inr (r, s1) \<Rightarrow>
               let s2 = s1\<lparr>parent := (parent s1)(x := r)\<rparr>
               in Some (Inr (parent s2 x, s2)))
      else Some (Inr (parent s x, s)))"

declare find_uf.simps [code]

subsection \<open>union_sets (lines 21-37)\<close>

definition union_sets :: "int \<Rightarrow> int \<Rightarrow> uf \<Rightarrow> (error + uf) option" where
  "union_sets x y s =
     bind_res (find_uf x s) (\<lambda>(rootX, s1).
     bind_res (find_uf y s1) (\<lambda>(rootY, s2).
       if rootX \<noteq> rootY then
         if in_bounds rootX \<and> in_bounds rootY then
           bind_res
             (if rank s2 rootX > rank s2 rootY then
                Some (Inr (s2\<lparr>parent := (parent s2)(rootY := rootX)\<rparr>))
              else if rank s2 rootX < rank s2 rootY then
                Some (Inr (s2\<lparr>parent := (parent s2)(rootX := rootY)\<rparr>))
              else if rank s2 rootX = INT_MAX then Some (Inl Overflow)
              else
                Some (Inr (s2\<lparr>parent := (parent s2)(rootY := rootX),
                              rank := (rank s2)(rootX := rank s2 rootX + 1)\<rparr>)))
             (\<lambda>s3. if component_count s3 = INT_MIN then Some (Inl Overflow)
                   else Some (Inr (s3\<lparr>component_count := component_count s3 - 1\<rparr>)))
         else Some (Inl OutOfBounds)
       else Some (Inr s2)))"

subsection \<open>initialize (lines 40-46)\<close>

function init_loop :: "int \<Rightarrow> int \<Rightarrow> uf \<Rightarrow> error + uf" where
  "init_loop i n s =
     (if i < n then
        if \<not> in_bounds i then Inl OutOfBounds
        else init_loop (i + 1) n (s\<lparr>parent := (parent s)(i := i), rank := (rank s)(i := 0)\<rparr>)
      else Inr s)"
  by pat_completeness auto
termination
  by (relation "measure (\<lambda>(i, n, s). nat (n - i))") auto

declare init_loop.simps [simp del]

definition initialize :: "int \<Rightarrow> uf \<Rightarrow> error + uf" where
  "initialize n s = init_loop 0 n (s\<lparr>component_count := n\<rparr>)"

subsection \<open>main (lines 48-88)\<close>

text \<open>
  Lines 61-69: \<^verbatim>\<open>int x = (a ^ F) % N; int y = (b ^ F) % N;\<close> and the swap.
  The operands are \<open>long long\<close>; \<open>%\<close> is C's remainder, which truncates towards
  zero (\<open>smod\<close>), is undefined for a zero divisor, and overflows for
  \<open>LLONG_MIN % -1\<close>. The result is smaller than \<open>N\<close> in magnitude, so the
  conversion to \<open>int\<close> keeps it.
\<close>

definition decode :: "int \<Rightarrow> int \<Rightarrow> int \<Rightarrow> int \<Rightarrow> error + int \<times> int" where
  "decode N acc a b =
     (if N = 0 then Inl DivByZero
      else if N = - 1 \<and> ((a XOR acc) = LLONG_MIN \<or> (b XOR acc) = LLONG_MIN) then Inl Overflow
      else
        let x = (a XOR acc) smod N;
            y = (b XOR acc) smod N
        in if x > y then Inr (y, x) else Inr (x, y))"

text \<open>
  The state of the loop in \<open>main\<close>: the globals, the accumulator \<open>F\<close>
  (a \<open>long long\<close>), and the lines printed so far.
\<close>

record mstate =
  ds :: uf
  F :: int
  out :: "string list"

definition add_F :: "int \<Rightarrow> mstate \<Rightarrow> (error + mstate) option" where
  "add_F c st =
     (if F st + c > LLONG_MAX \<or> F st + c < LLONG_MIN then Some (Inl Overflow)
      else Some (Inr (st\<lparr>F := F st + c\<rparr>)))"

text \<open>
  The body of the \<open>for\<close> loop (lines 57-84) for position \<open>i\<close> and the pair read.
  In \<^verbatim>\<open>find(x) == find(y)\<close> C leaves the order of the two calls open; here
  \<open>find(x)\<close> runs first. Both branches of the check add \<open>component_count\<close> to
  \<open>F\<close> after printing.
\<close>

definition loop_body :: "int \<Rightarrow> int \<Rightarrow> int \<Rightarrow> int \<Rightarrow> mstate \<Rightarrow> (error + mstate) option" where
  "loop_body N i a b st =
     (case decode N (F st) a b of
        Inl e \<Rightarrow> Some (Inl e)
      | Inr (x, y) \<Rightarrow>
          if i mod 2 = 0 then
            bind_res (union_sets x y (ds st)) (\<lambda>s'.
              add_F (component_count s') (st\<lparr>ds := s'\<rparr>))
          else
            bind_res (find_uf x (ds st)) (\<lambda>(rx, s1).
            bind_res (find_uf y s1) (\<lambda>(ry, s2).
              add_F (component_count s2)
                (st\<lparr>ds := s2, out := out st @ [if rx = ry then ''1'' else ''0'']\<rparr>))))"

text \<open>
  The loop \<^verbatim>\<open>for (int i = 0; i < Q; i++)\<close> over the pairs still to be read.
  The source ignores the result of \<open>scanf\<close>; when the input ends early it goes on
  with indeterminate \<open>a\<close> and \<open>b\<close>, which is \<open>MalformedInput\<close> here.
\<close>

fun main_loop ::
  "int \<Rightarrow> int \<Rightarrow> int \<Rightarrow> (int \<times> int) list \<Rightarrow> mstate \<Rightarrow> (error + mstate) option" where
  "main_loop N Q i [] st = (if i < Q then Some (Inl MalformedInput) else Some (Inr st))"
| "main_loop N Q i ((a, b) # rest) st =
     (if i < Q then bind_res (loop_body N i a b st) (main_loop N Q (i + 1) rest)
      else Some (Inr st))"

text \<open>\<open>main_state\<close> is \<open>main\<close> up to the end of the loop; \<open>main\<close> is what it printed.\<close>

definition main_state :: "int \<Rightarrow> int \<Rightarrow> (int \<times> int) list \<Rightarrow> (error + mstate) option" where
  "main_state N Q qs =
     (case initialize N uf0 of
        Inl e \<Rightarrow> Some (Inl e)
      | Inr s \<Rightarrow> main_loop N Q 0 qs \<lparr>ds = s, F = 0, out = []\<rparr>)"

definition main :: "int \<Rightarrow> int \<Rightarrow> (int \<times> int) list \<Rightarrow> (error + string list) option" where
  "main N Q qs = bind_res (main_state N Q qs) (\<lambda>st. Some (Inr (out st)))"

section \<open>Notions used to state the properties\<close>

text \<open>The value \<open>find\<close> returns, when it returns one.\<close>

definition find_root :: "int \<Rightarrow> uf \<Rightarrow> int option" where
  "find_root x s = (case find_uf x s of Some (Inr (r, _)) \<Rightarrow> Some r | _ \<Rightarrow> None)"

definition in_range :: "int \<Rightarrow> int \<Rightarrow> bool" where
  "in_range n x \<longleftrightarrow> 0 \<le> x \<and> x < n"

definition roots :: "int \<Rightarrow> uf \<Rightarrow> int set" where
  "roots n s = {i. in_range n i \<and> parent s i = i}"

text \<open>
  Client call sequences: any finite sequence of \<open>find\<close> and \<open>union_sets\<close> calls
  after \<open>initialize n\<close>.
\<close>

datatype uf_op = Find int | Union int int

fun op_ok :: "int \<Rightarrow> uf_op \<Rightarrow> bool" where
  "op_ok n (Find x) = in_range n x"
| "op_ok n (Union x y) = (in_range n x \<and> in_range n y)"

fun apply_ops :: "uf_op list \<Rightarrow> uf \<Rightarrow> (error + uf) option" where
  "apply_ops [] s = Some (Inr s)"
| "apply_ops (Find x # ops) s = bind_res (find_uf x s) (\<lambda>(r, s'). apply_ops ops s')"
| "apply_ops (Union x y # ops) s = bind_res (union_sets x y s) (apply_ops ops)"

definition reach :: "int \<Rightarrow> uf_op list \<Rightarrow> (error + uf) option" where
  "reach n ops = (case initialize n uf0 of Inl e \<Rightarrow> Some (Inl e) | Inr s \<Rightarrow> apply_ops ops s)"

text \<open>
  The invariant of the structure over the universe \<open>[0, n)\<close>: parents stay in the
  universe, ranks strictly increase along parent pointers, ranks are bounded, and the
  counter is the number of roots.
\<close>

definition uf_inv :: "int \<Rightarrow> uf \<Rightarrow> bool" where
  "uf_inv n s \<longleftrightarrow>
     n \<le> CAP \<and>
     (\<forall>i. in_range n i \<longrightarrow> in_range n (parent s i)) \<and>
     (\<forall>i. in_range n i \<longrightarrow> parent s i \<noteq> i \<longrightarrow> rank s i < rank s (parent s i)) \<and>
     (\<forall>i. in_range n i \<longrightarrow> 0 \<le> rank s i \<and> rank s i + component_count s \<le> n) \<and>
     component_count s = int (card (roots n s))"

text \<open>
  \<open>compressed n s s'\<close>: \<open>s'\<close> differs from \<open>s\<close> at most in parent pointers of
  non-roots, each changed pointer now being the representative its node had in \<open>s\<close>.
\<close>

definition compressed :: "int \<Rightarrow> uf \<Rightarrow> uf \<Rightarrow> bool" where
  "compressed n s s' \<longleftrightarrow>
     rank s' = rank s \<and> component_count s' = component_count s \<and>
     (\<forall>u. parent s' u = parent s u \<or>
          (in_range n u \<and> parent s u \<noteq> u \<and> find_root u s = Some (parent s' u)))"

text \<open>
  \<open>compressed_by x y s s'\<close>: \<open>s'\<close> is the state left by \<open>find x\<close> followed by
  \<open>find y\<close>, both returning the same root \<open>r\<close>; ranks and the counter are those of
  \<open>s\<close>, and every parent pointer that differs belongs to a node on the path from
  \<open>x\<close> or from \<open>y\<close> in \<open>s\<close> and now is \<open>r\<close>, the representative that node had.
\<close>

definition compressed_by :: "int \<Rightarrow> int \<Rightarrow> uf \<Rightarrow> uf \<Rightarrow> bool" where
  "compressed_by x y s s' \<longleftrightarrow>
     (\<exists>r s1. find_uf x s = Some (Inr (r, s1)) \<and> find_uf y s1 = Some (Inr (r, s')) \<and>
        rank s' = rank s \<and> component_count s' = component_count s \<and>
        (\<forall>u. parent s' u \<noteq> parent s u \<longrightarrow>
           parent s' u = r \<and> find_root u s = Some r \<and>
           (\<exists>k. u = (parent s ^^ k) x \<or> u = (parent s ^^ k) y)))"

text \<open>No node of the universe with a proper parent is ever reached again from itself.\<close>

definition forest :: "int \<Rightarrow> (int \<Rightarrow> int) \<Rightarrow> bool" where
  "forest n p \<longleftrightarrow>
     (\<forall>x. in_range n x \<longrightarrow> in_range n (p x)) \<and>
     (\<forall>x k. in_range n x \<and> p x \<noteq> x \<and> 0 < k \<longrightarrow> (p ^^ k) x \<noteq> x)"

text \<open>
  Inputs on which \<open>main\<close> is meant to run: a universe that fits the arrays, a query
  count that fits \<open>int\<close>, at least \<open>Q\<close> pairs on the input, and non-negative
  \<open>long long\<close> operands.
\<close>

definition valid_input :: "int \<Rightarrow> int \<Rightarrow> (int \<times> int) list \<Rightarrow> bool" where
  "valid_input N Q qs \<longleftrightarrow>
     1 \<le> N \<and> N \<le> CAP \<and> 0 \<le> Q \<and> Q \<le> INT_MAX \<and> Q \<le> int (length qs) \<and>
     list_all (\<lambda>(a, b). 0 \<le> a \<and> a \<le> LLONG_MAX \<and> 0 \<le> b \<and> b \<le> LLONG_MAX) (take (nat Q) qs)"

text \<open>The value of \<open>component_count\<close> once the first \<open>j\<close> queries are processed.\<close>

definition count_after :: "int \<Rightarrow> (int \<times> int) list \<Rightarrow> nat \<Rightarrow> int" where
  "count_after N qs j =
     (case main_state N (int j) qs of Some (Inr st) \<Rightarrow> component_count (ds st) | _ \<Rightarrow> 0)"

section \<open>The invariant and what find and union_sets do under it\<close>

lemma bind_res_simps [simp]:
  "bind_res None f = None"
  "bind_res (Some (Inl e)) f = Some (Inl e)"
  "bind_res (Some (Inr v)) f = f v"
  by (simp_all add: bind_res_def)

lemma in_range_in_bounds: "n \<le> CAP \<Longrightarrow> in_range n x \<Longrightarrow> in_bounds x"
  by (simp add: in_range_def in_bounds_def)

lemma find_uf_at_root:
  "in_bounds x \<Longrightarrow> parent s x = x \<Longrightarrow> find_uf x s = Some (Inr (x, s))"
  by (subst find_uf.simps) simp

lemma find_uf_at_child:
  "in_bounds x \<Longrightarrow> parent s x \<noteq> x \<Longrightarrow> find_uf (parent s x) s = Some (Inr (r, s1)) \<Longrightarrow>
   find_uf x s = Some (Inr (r, s1\<lparr>parent := (parent s1)(x := r)\<rparr>))"
  by (subst find_uf.simps) simp

lemma find_root_at_root:
  "in_bounds x \<Longrightarrow> parent s x = x \<Longrightarrow> find_root x s = Some x"
  by (simp add: find_root_def find_uf_at_root)

lemma uf_inv_cap: "uf_inv n s \<Longrightarrow> n \<le> CAP"
  by (simp add: uf_inv_def)

lemma uf_inv_parent: "uf_inv n s \<Longrightarrow> in_range n i \<Longrightarrow> in_range n (parent s i)"
  by (simp add: uf_inv_def)

lemma uf_inv_rank_lt:
  "uf_inv n s \<Longrightarrow> in_range n i \<Longrightarrow> parent s i \<noteq> i \<Longrightarrow> rank s i < rank s (parent s i)"
  by (simp add: uf_inv_def)

lemma uf_inv_count: "uf_inv n s \<Longrightarrow> component_count s = int (card (roots n s))"
  by (simp add: uf_inv_def)

lemma uf_inv_rank_bound:
  "uf_inv n s \<Longrightarrow> in_range n i \<Longrightarrow> 0 \<le> rank s i \<and> rank s i + component_count s \<le> n"
  unfolding uf_inv_def by blast

lemma uf_invI:
  assumes "n \<le> CAP"
    and "\<And>i. in_range n i \<Longrightarrow> in_range n (parent s i)"
    and "\<And>i. in_range n i \<Longrightarrow> parent s i \<noteq> i \<Longrightarrow> rank s i < rank s (parent s i)"
    and "\<And>i. in_range n i \<Longrightarrow> 0 \<le> rank s i"
    and "\<And>i. in_range n i \<Longrightarrow> rank s i + component_count s \<le> n"
    and "component_count s = int (card (roots n s))"
  shows "uf_inv n s"
  unfolding uf_inv_def using assms by blast

lemma uf_inv_rank_le: "uf_inv n s \<Longrightarrow> in_range n i \<Longrightarrow> rank s i \<le> n"
  using uf_inv_rank_bound [of n s i] uf_inv_count [of n s] by simp

text \<open>The central fact about find: on a state satisfying the invariant it returns.\<close>

lemma find_uf_total:
  assumes inv: "uf_inv n s"
  shows "in_range n x \<Longrightarrow>
     \<exists>r s'. find_uf x s = Some (Inr (r, s')) \<and> in_range n r \<and> parent s r = r \<and>
            (x \<noteq> r \<longrightarrow> rank s x < rank s r) \<and> compressed n s s' \<and>
            (\<forall>u. parent s' u \<noteq> parent s u \<longrightarrow>
                 parent s' u = r \<and> (\<exists>k. u = (parent s ^^ k) x))"
proof (induction "nat (n - rank s x)" arbitrary: x rule: less_induct)
  case less
  have bx: "in_bounds x"
    using uf_inv_cap [OF inv] less.prems by (rule in_range_in_bounds)
  show ?case
  proof (cases "parent s x = x")
    case True
    have "find_uf x s = Some (Inr (x, s))"
      using bx True by (rule find_uf_at_root)
    moreover have "compressed n s s"
      by (simp add: compressed_def)
    ultimately show ?thesis
      using True less.prems by blast
  next
    case False
    let ?p = "parent s x"
    have pr: "in_range n ?p"
      using inv less.prems by (rule uf_inv_parent)
    have lt: "rank s x < rank s ?p"
      using inv less.prems False by (rule uf_inv_rank_lt)
    have "rank s ?p \<le> n"
      using inv pr by (rule uf_inv_rank_le)
    with lt have "nat (n - rank s ?p) < nat (n - rank s x)"
      by simp
    from less.hyps [OF this pr] obtain r s1 where
      f: "find_uf ?p s = Some (Inr (r, s1))" and rr: "in_range n r" and root: "parent s r = r"
      and rk: "?p \<noteq> r \<longrightarrow> rank s ?p < rank s r" and c: "compressed n s s1"
      and ch: "\<forall>u. parent s1 u \<noteq> parent s u \<longrightarrow>
                 parent s1 u = r \<and> (\<exists>k. u = (parent s ^^ k) ?p)"
      by blast
    let ?s' = "s1\<lparr>parent := (parent s1)(x := r)\<rparr>"
    have fx: "find_uf x s = Some (Inr (r, ?s'))"
      using bx False f by (rule find_uf_at_child)
    have rkx: "rank s x < rank s r"
      using lt rk by (cases "?p = r") auto
    have "find_root x s = Some r"
      using fx by (simp add: find_root_def)
    then have c': "compressed n s ?s'"
      using c less.prems False by (auto simp: compressed_def)
    have "parent ?s' u = r \<and> (\<exists>k. u = (parent s ^^ k) x)" if "parent ?s' u \<noteq> parent s u" for u
    proof (cases "u = x")
      case True
      have "x = (parent s ^^ 0) x"
        by simp
      then show ?thesis
        using True by (simp; blast)
    next
      case False
      with that ch obtain k where "parent s1 u = r" "u = (parent s ^^ k) ?p"
        by auto
      then have "parent ?s' u = r" "u = (parent s ^^ Suc k) x"
        using False by (simp_all add: funpow_swap1)
      then show ?thesis
        by blast
    qed
    then show ?thesis
      using fx rr root rkx c' by blast
  qed
qed

lemma find_root_total:
  assumes "uf_inv n s" "in_range n x"
  shows "\<exists>r. find_root x s = Some r \<and> in_range n r \<and> parent s r = r \<and>
             (x \<noteq> r \<longrightarrow> rank s x < rank s r)"
proof -
  from find_uf_total [OF assms] obtain r s' where
    "find_uf x s = Some (Inr (r, s'))" "in_range n r" "parent s r = r"
    "x \<noteq> r \<longrightarrow> rank s x < rank s r"
    by blast
  then show ?thesis
    by (simp add: find_root_def)
qed

lemma find_rootD:
  assumes "uf_inv n s" "in_range n x" "find_root x s = Some r"
  shows "in_range n r" "parent s r = r" "x \<noteq> r \<Longrightarrow> rank s x < rank s r"
  using find_root_total [OF assms(1,2)] assms(3) by auto

lemma find_root_of_root:
  assumes "uf_inv n s" "in_range n x" "parent s x = x"
  shows "find_root x s = Some x"
  using in_range_in_bounds [OF uf_inv_cap [OF assms(1)] assms(2)] assms(3)
  by (rule find_root_at_root)

lemma find_root_step:
  assumes inv: "uf_inv n s" and x: "in_range n x" and nr: "parent s x \<noteq> x"
  shows "find_root x s = find_root (parent s x) s"
proof -
  have bx: "in_bounds x"
    using uf_inv_cap [OF inv] x by (rule in_range_in_bounds)
  from find_uf_total [OF inv uf_inv_parent [OF inv x]] obtain r s1 where
    f: "find_uf (parent s x) s = Some (Inr (r, s1))"
    by blast
  from find_uf_at_child [OF bx nr f] f show ?thesis
    by (simp add: find_root_def)
qed

lemma find_root_idem:
  assumes "uf_inv n s" "in_range n x" "find_root x s = Some r"
  shows "find_root r s = Some r"
  using assms find_rootD(1,2) find_root_of_root by blast

lemma compressed_refl: "compressed n s s"
  by (simp add: compressed_def)

lemma compressed_parent:
  assumes "uf_inv n s" "compressed n s s'"
  shows "parent s' u = parent s u \<or>
         (in_range n u \<and> parent s u \<noteq> u \<and> parent s' u \<noteq> u \<and> in_range n (parent s' u) \<and>
          parent s (parent s' u) = parent s' u \<and> rank s u < rank s (parent s' u) \<and>
          find_root u s = Some (parent s' u))"
proof (cases "parent s' u = parent s u")
  case True
  then show ?thesis by simp
next
  case False
  with assms(2) have u: "in_range n u" and nr: "parent s u \<noteq> u"
    and fr: "find_root u s = Some (parent s' u)"
    by (auto simp: compressed_def)
  note d = find_rootD [OF assms(1) u fr]
  have "parent s' u \<noteq> u"
    using d(2) nr by auto
  with d u nr fr show ?thesis
    by auto
qed

lemma compressed_roots:
  assumes "uf_inv n s" "compressed n s s'"
  shows "(parent s' u = u) = (parent s u = u)"
  using compressed_parent [OF assms, of u] by auto

lemma compressed_inv:
  assumes inv: "uf_inv n s" and c: "compressed n s s'"
  shows "uf_inv n s'"
proof -
  have rk: "rank s' = rank s" and cc: "component_count s' = component_count s"
    using c by (simp_all add: compressed_def)
  have rt: "roots n s' = roots n s"
    using compressed_roots [OF inv c] by (simp add: roots_def)
  show ?thesis
  proof (rule uf_invI)
    show "n \<le> CAP"
      using inv by (rule uf_inv_cap)
    show "in_range n (parent s' i)" if "in_range n i" for i
      using compressed_parent [OF inv c, of i] uf_inv_parent [OF inv that] by auto
    show "rank s' i < rank s' (parent s' i)" if "in_range n i" "parent s' i \<noteq> i" for i
      using compressed_parent [OF inv c, of i] uf_inv_rank_lt [OF inv that(1)] that(2)
      by (auto simp: rk)
    show "0 \<le> rank s' i" if "in_range n i" for i
      using uf_inv_rank_bound [OF inv that] by (simp add: rk)
    show "rank s' i + component_count s' \<le> n" if "in_range n i" for i
      using uf_inv_rank_bound [OF inv that] by (simp add: rk cc)
    show "component_count s' = int (card (roots n s'))"
      using uf_inv_count [OF inv] by (simp add: rt cc)
  qed
qed

lemma compressed_find_root:
  assumes inv: "uf_inv n s" and c: "compressed n s s'"
  shows "in_range n u \<Longrightarrow> find_root u s' = find_root u s"
proof (induction "nat (n - rank s u)" arbitrary: u rule: less_induct)
  case less
  note inv' = compressed_inv [OF inv c]
  show ?case
  proof (cases "parent s u = u")
    case True
    then have "parent s' u = u"
      using compressed_roots [OF inv c] by simp
    then show ?thesis
      using True less.prems inv inv' by (simp add: find_root_of_root)
  next
    case False
    then have nr': "parent s' u \<noteq> u"
      using compressed_roots [OF inv c] by simp
    have st: "find_root u s' = find_root (parent s' u) s'"
      using inv' less.prems nr' by (rule find_root_step)
    have st0: "find_root u s = find_root (parent s u) s"
      using inv less.prems False by (rule find_root_step)
    consider (same) "parent s' u = parent s u"
      | (moved) "in_range n (parent s' u)" "parent s (parent s' u) = parent s' u"
          "find_root u s = Some (parent s' u)"
      using compressed_parent [OF inv c, of u] by blast
    then show ?thesis
    proof cases
      case same
      have pr: "in_range n (parent s u)"
        using inv less.prems by (rule uf_inv_parent)
      have "rank s u < rank s (parent s u)"
        using inv less.prems False by (rule uf_inv_rank_lt)
      moreover have "rank s (parent s u) \<le> n"
        using inv pr by (rule uf_inv_rank_le)
      ultimately have "nat (n - rank s (parent s u)) < nat (n - rank s u)"
        by simp
      from less.hyps [OF this pr] show ?thesis
        using st st0 same by simp
    next
      case moved
      have "parent s' (parent s' u) = parent s' u"
        using compressed_roots [OF inv c, of "parent s' u"] moved(2) by simp
      then have "find_root (parent s' u) s' = Some (parent s' u)"
        using inv' moved(1) by (simp add: find_root_of_root)
      then show ?thesis
        using st moved(3) by simp
    qed
  qed
qed

lemma compressed_trans:
  assumes inv: "uf_inv n s" and c1: "compressed n s s1" and c2: "compressed n s1 s2"
  shows "compressed n s s2"
proof -
  note inv1 = compressed_inv [OF inv c1]
  have "parent s2 u = parent s u \<or>
        (in_range n u \<and> parent s u \<noteq> u \<and> find_root u s = Some (parent s2 u))" for u
  proof (cases "parent s2 u = parent s1 u")
    case True
    then show ?thesis
      using c1 by (auto simp: compressed_def)
  next
    case False
    with c2 have u: "in_range n u" and nr: "parent s1 u \<noteq> u"
      and fr: "find_root u s1 = Some (parent s2 u)"
      by (auto simp: compressed_def)
    have "parent s u \<noteq> u"
      using compressed_roots [OF inv c1, of u] nr by simp
    moreover have "find_root u s = Some (parent s2 u)"
      using compressed_find_root [OF inv c1 u] fr by simp
    ultimately show ?thesis
      using u by simp
  qed
  then show ?thesis
    using c1 c2 by (simp add: compressed_def)
qed

lemma find_uf_spec:
  assumes "uf_inv n s" "in_range n x"
  shows "\<exists>r s'. find_uf x s = Some (Inr (r, s')) \<and> find_root x s = Some r \<and>
           in_range n r \<and> parent s r = r \<and> parent s' r = r \<and>
           compressed n s s' \<and> uf_inv n s' \<and>
           (\<forall>u. parent s' u \<noteq> parent s u \<longrightarrow>
                parent s' u = r \<and> (\<exists>k. u = (parent s ^^ k) x))"
proof -
  from find_uf_total [OF assms] obtain r s' where
    f: "find_uf x s = Some (Inr (r, s'))" and r: "in_range n r" "parent s r = r"
    and c: "compressed n s s'"
    and ch: "\<forall>u. parent s' u \<noteq> parent s u \<longrightarrow>
                parent s' u = r \<and> (\<exists>k. u = (parent s ^^ k) x)"
    by blast
  have "parent s' r = r"
    using compressed_roots [OF assms(1) c, of r] r(2) by simp
  moreover have "find_root x s = Some r"
    using f by (simp add: find_root_def)
  ultimately show ?thesis
    using f r c ch compressed_inv [OF assms(1) c] by blast
qed

lemma in_range_set: "{i. in_range n i} = {0..<n}"
  by (auto simp: in_range_def)

lemma finite_roots: "finite (roots n s)"
proof (rule finite_subset)
  show "roots n s \<subseteq> {0..<n}"
    by (auto simp: roots_def in_range_def)
qed simp

lemma roots_nonempty_count:
  assumes "uf_inv n s" "in_range n b" "parent s b = b"
  shows "1 \<le> component_count s"
proof -
  have "b \<in> roots n s"
    using assms(2,3) by (simp add: roots_def)
  then have "card (roots n s) \<noteq> 0"
    using finite_roots [of n s] by auto
  then show ?thesis
    using uf_inv_count [OF assms(1)] by simp
qed

lemma link_inv:
  assumes inv: "uf_inv n s"
    and a: "in_range n a" "parent s a = a"
    and b: "in_range n b" "parent s b = b"
    and ab: "a \<noteq> b"
    and p': "parent s' = (parent s)(b := a)"
    and r': "\<And>i. i \<noteq> a \<Longrightarrow> rank s' i = rank s i"
      "rank s a \<le> rank s' a" "rank s' a \<le> rank s a + 1" "rank s b < rank s' a"
    and c': "component_count s' = component_count s - 1"
  shows "uf_inv n s'"
proof (rule uf_invI)
  show "n \<le> CAP"
    using inv by (rule uf_inv_cap)
  show "in_range n (parent s' i)" if "in_range n i" for i
    using uf_inv_parent [OF inv that] a(1) by (simp add: p')
  have mono: "rank s i \<le> rank s' i" "rank s' i \<le> rank s i + 1" for i
    using r'(1) [of i] r'(2,3) by (cases "i = a"; simp)+
  show "rank s' i < rank s' (parent s' i)" if i: "in_range n i" and nr: "parent s' i \<noteq> i" for i
  proof (cases "i = b")
    case True
    then show ?thesis
      using r'(1) [of b] r'(4) ab by (simp add: p')
  next
    case False
    with nr have nr0: "parent s i \<noteq> i"
      by (simp add: p')
    then have "i \<noteq> a"
      using a(2) by auto
    then have "rank s' i = rank s i"
      by (rule r'(1))
    moreover have "rank s i < rank s (parent s i)"
      using inv i nr0 by (rule uf_inv_rank_lt)
    ultimately show ?thesis
      using mono(1) [of "parent s i"] False by (simp add: p')
  qed
  show "0 \<le> rank s' i" if "in_range n i" for i
    using uf_inv_rank_bound [OF inv that] mono(1) [of i] by simp
  show "rank s' i + component_count s' \<le> n" if "in_range n i" for i
    using uf_inv_rank_bound [OF inv that] mono(2) [of i] by (simp add: c')
  show "component_count s' = int (card (roots n s'))"
  proof -
    have "roots n s' = roots n s - {b}"
      using ab a(2) by (auto simp: roots_def p')
    moreover have "b \<in> roots n s"
      using b by (simp add: roots_def)
    ultimately have "card (roots n s) = Suc (card (roots n s'))"
      using card.remove [OF finite_roots, of b n s] by simp
    then show ?thesis
      using uf_inv_count [OF inv] by (simp add: c')
  qed
qed

lemma link_find_root:
  assumes inv: "uf_inv n s" and inv': "uf_inv n s'"
    and a: "in_range n a" "parent s a = a"
    and b: "in_range n b" "parent s b = b"
    and ab: "a \<noteq> b"
    and p': "parent s' = (parent s)(b := a)"
  shows "in_range n u \<Longrightarrow>
     find_root u s' = (if find_root u s = Some b then Some a else find_root u s)"
proof (induction "nat (n - rank s u)" arbitrary: u rule: less_induct)
  case less
  have ra: "find_root a s' = Some a"
    using inv' a(1) by (rule find_root_of_root) (simp add: p' a(2) ab)
  show ?case
  proof (cases "parent s u = u")
    case True
    note ru = find_root_of_root [OF inv less.prems True]
    show ?thesis
    proof (cases "u = b")
      case True
      have "find_root b s' = find_root (parent s' b) s'"
        using inv' b(1) by (rule find_root_step) (simp add: p' ab)
      then show ?thesis
        using ra ru True by (simp add: p')
    next
      case False
      have "find_root u s' = Some u"
        using inv' less.prems by (rule find_root_of_root) (simp add: p' False True)
      then show ?thesis
        using ru False by simp
    qed
  next
    case False
    then have ub: "u \<noteq> b"
      using b(2) by auto
    have pr: "in_range n (parent s u)"
      using inv less.prems by (rule uf_inv_parent)
    have "rank s u < rank s (parent s u)"
      using inv less.prems False by (rule uf_inv_rank_lt)
    moreover have "rank s (parent s u) \<le> n"
      using inv pr by (rule uf_inv_rank_le)
    ultimately have "nat (n - rank s (parent s u)) < nat (n - rank s u)"
      by simp
    note ih = less.hyps [OF this pr]
    have "find_root u s' = find_root (parent s' u) s'"
      using inv' less.prems by (rule find_root_step) (simp add: p' ub False)
    moreover have "find_root u s = find_root (parent s u) s"
      using inv less.prems False by (rule find_root_step)
    ultimately show ?thesis
      using ih ub by (simp add: p')
  qed
qed

lemma CAP_lt_INT_MAX: "CAP < INT_MAX"
  by (simp add: CAP_def INT_MAX_def)

text \<open>What union_sets does on a state satisfying the invariant.\<close>

lemma union_sets_spec:
  assumes inv: "uf_inv n s" and x: "in_range n x" and y: "in_range n y"
  shows "\<exists>rx ry s2 s'.
     find_root x s = Some rx \<and> find_root y s = Some ry \<and>
     in_range n rx \<and> in_range n ry \<and> parent s rx = rx \<and> parent s ry = ry \<and>
     compressed n s s2 \<and> union_sets x y s = Some (Inr s') \<and> uf_inv n s' \<and>
     (rx = ry \<longrightarrow> s' = s2) \<and>
     (rx \<noteq> ry \<longrightarrow>
        component_count s' = component_count s - 1 \<and>
        parent s' = (parent s2)
          ((if rank s rx < rank s ry then rx else ry) := (if rank s rx < rank s ry then ry else rx)) \<and>
        rank s' = (if rank s rx = rank s ry then (rank s)(rx := rank s rx + 1) else rank s) \<and>
        (\<forall>u. in_range n u \<longrightarrow>
           find_root u s' =
             (if find_root u s = Some (if rank s rx < rank s ry then rx else ry)
              then Some (if rank s rx < rank s ry then ry else rx) else find_root u s)))"
proof -
  from find_uf_spec [OF inv x] obtain rx s1 where
    fx: "find_uf x s = Some (Inr (rx, s1))" and frx: "find_root x s = Some rx"
    and rx: "in_range n rx" "parent s rx = rx" and c1: "compressed n s s1"
    and inv1: "uf_inv n s1"
    by blast
  from find_uf_spec [OF inv1 y] obtain ry s2 where
    fy: "find_uf y s1 = Some (Inr (ry, s2))" and fry1: "find_root y s1 = Some ry"
    and ry1: "in_range n ry" "parent s1 ry = ry" and c2: "compressed n s1 s2"
    and inv2: "uf_inv n s2"
    by blast
  have fry: "find_root y s = Some ry"
    using compressed_find_root [OF inv c1 y] fry1 by simp
  have ry: "parent s ry = ry"
    using compressed_roots [OF inv c1, of ry] ry1(2) by simp
  have c: "compressed n s s2"
    using inv c1 c2 by (rule compressed_trans)
  have rk2: "rank s2 = rank s" and cc2: "component_count s2 = component_count s"
    using c by (simp_all add: compressed_def)
  have p2: "parent s2 rx = rx" "parent s2 ry = ry"
    using compressed_roots [OF inv c] rx(2) ry by simp_all
  have fr2: "find_root u s2 = find_root u s" if "in_range n u" for u
    using inv c that by (rule compressed_find_root)
  have bnd: "in_bounds rx" "in_bounds ry"
    using in_range_in_bounds [OF uf_inv_cap [OF inv]] rx(1) ry1(1) by simp_all
  show ?thesis
  proof (cases "rx = ry")
    case True
    then have "union_sets x y s = Some (Inr s2)"
      by (simp add: union_sets_def fx fy)
    then show ?thesis
      using frx fry rx ry1(1) ry c inv2 True by blast
  next
    case False
    have nmax: "rank s rx \<noteq> INT_MAX"
      using uf_inv_rank_le [OF inv rx(1)] uf_inv_cap [OF inv] CAP_lt_INT_MAX by simp
    have nmin: "component_count s \<noteq> INT_MIN"
      using roots_nonempty_count [OF inv rx] by (simp add: INT_MIN_def)
    define l where "l = (if rank s rx < rank s ry then rx else ry)"
    define w where "w = (if rank s rx < rank s ry then ry else rx)"
    define s' where "s' = s2\<lparr>parent := (parent s2)(l := w),
      rank := (if rank s rx = rank s ry then (rank s)(rx := rank s rx + 1) else rank s),
      component_count := component_count s - 1\<rparr>"
    have u: "union_sets x y s = Some (Inr s')"
      using False bnd nmax nmin
      by (simp add: union_sets_def fx fy rk2 cc2 s'_def l_def w_def)
    have w: "in_range n w" "parent s2 w = w" and l: "in_range n l" "parent s2 l = l"
      and wl: "w \<noteq> l"
      using rx(1) ry1(1) p2 False by (simp_all add: w_def l_def)
    have inv': "uf_inv n s'"
      using inv2 w l wl
    proof (rule link_inv)
      show "parent s' = (parent s2)(l := w)"
        by (simp add: s'_def)
      show "rank s' i = rank s2 i" if "i \<noteq> w" for i
        using that by (auto simp: s'_def rk2 w_def)
      show "rank s2 w \<le> rank s' w" "rank s' w \<le> rank s2 w + 1" "rank s2 l < rank s' w"
        by (auto simp: s'_def rk2 w_def l_def)
      show "component_count s' = component_count s2 - 1"
        by (simp add: s'_def cc2)
    qed
    have "find_root u s' = (if find_root u s = Some l then Some w else find_root u s)"
      if "in_range n u" for u
      using link_find_root [OF inv2 inv' w l wl _ that] fr2 [OF that] by (simp add: s'_def)
    moreover have "component_count s' = component_count s - 1"
      "parent s' = (parent s2)(l := w)"
      "rank s' = (if rank s rx = rank s ry then (rank s)(rx := rank s rx + 1) else rank s)"
      by (simp_all add: s'_def)
    ultimately show ?thesis
      using frx fry rx ry1(1) ry c u inv' False unfolding l_def w_def by blast
  qed
qed

lemma init_loop_spec:
  "0 \<le> i \<Longrightarrow> n \<le> CAP \<Longrightarrow>
   \<exists>s'. init_loop i n s = Inr s' \<and>
        parent s' = (\<lambda>j. if i \<le> j \<and> j < n then j else parent s j) \<and>
        rank s' = (\<lambda>j. if i \<le> j \<and> j < n then 0 else rank s j) \<and>
        component_count s' = component_count s"
proof (induction i n s rule: init_loop.induct)
  case (1 i n s)
  show ?case
  proof (cases "i < n")
    case True
    then have b: "in_bounds i"
      using "1.prems" by (simp add: in_bounds_def)
    let ?s1 = "s\<lparr>parent := (parent s)(i := i), rank := (rank s)(i := 0)\<rparr>"
    from "1.IH" [OF True _ _ "1.prems"(2)] b "1.prems"(1) obtain s' where
      s': "init_loop (i + 1) n ?s1 = Inr s'"
      "parent s' = (\<lambda>j. if i + 1 \<le> j \<and> j < n then j else parent ?s1 j)"
      "rank s' = (\<lambda>j. if i + 1 \<le> j \<and> j < n then 0 else rank ?s1 j)"
      "component_count s' = component_count ?s1"
      by auto
    have "init_loop i n s = Inr s'"
      using True b s'(1) by (subst init_loop.simps) simp
    moreover have "parent s' = (\<lambda>j. if i \<le> j \<and> j < n then j else parent s j)"
      using True by (auto simp: s'(2))
    moreover have "rank s' = (\<lambda>j. if i \<le> j \<and> j < n then 0 else rank s j)"
      using True by (auto simp: s'(3))
    ultimately show ?thesis
      using s'(4) by simp
  next
    case False
    then have "init_loop i n s = Inr s"
      by (subst init_loop.simps) simp
    then show ?thesis
      using False by auto
  qed
qed

lemma init_loop_overflow:
  "0 \<le> i \<Longrightarrow> i \<le> CAP \<Longrightarrow> CAP < n \<Longrightarrow> init_loop i n s = Inl OutOfBounds"
proof (induction i n s rule: init_loop.induct)
  case (1 i n s)
  show ?case
  proof (cases "in_bounds i")
    case True
    then have "i + 1 \<le> CAP"
      by (simp add: in_bounds_def)
    with "1.IH" [of] "1.prems" True show ?thesis
      by (subst init_loop.simps) simp
  next
    case False
    with "1.prems" show ?thesis
      by (subst init_loop.simps) simp
  qed
qed

lemma initialize_overflow: "CAP < n \<Longrightarrow> initialize n s = Inl OutOfBounds"
  unfolding initialize_def by (rule init_loop_overflow) (simp_all add: CAP_def)

lemma initialize_spec:
  assumes "0 \<le> n" "n \<le> CAP"
  shows "\<exists>s0. initialize n uf0 = Inr s0 \<and> uf_inv n s0 \<and> component_count s0 = n \<and>
              (\<forall>i. in_range n i \<longrightarrow> parent s0 i = i \<and> rank s0 i = 0)"
proof -
  let ?u = "uf0\<lparr>component_count := n\<rparr>"
  have "(0::int) \<le> 0"
    by simp
  from init_loop_spec [OF this assms(2), of ?u] obtain s0 where
    i0: "init_loop 0 n ?u = Inr s0"
    and p0: "parent s0 = (\<lambda>j. if 0 \<le> j \<and> j < n then j else parent ?u j)"
    and r0: "rank s0 = (\<lambda>j. if 0 \<le> j \<and> j < n then 0 else rank ?u j)"
    and c0: "component_count s0 = component_count ?u"
    by blast
  have i: "initialize n uf0 = Inr s0"
    using i0 by (simp add: initialize_def)
  have p: "parent s0 = (\<lambda>j. if 0 \<le> j \<and> j < n then j else 0)"
    unfolding p0 by (rule ext) (simp add: uf0_def)
  have r: "rank s0 = (\<lambda>j. 0)"
    unfolding r0 by (rule ext) (simp add: uf0_def)
  have c: "component_count s0 = n"
    unfolding c0 by simp
  have "roots n s0 = {0..<n}"
    by (auto simp: roots_def in_range_def p)
  then have "int (card (roots n s0)) = n"
    using assms(1) by simp
  then have "uf_inv n s0"
    using assms by (intro uf_invI) (simp_all add: p r c in_range_def)
  then show ?thesis
    using i c by (auto simp: p r in_range_def)
qed

lemma initialize_Inr_cap:
  assumes "initialize n s = Inr s0"
  shows "n \<le> CAP"
proof (rule ccontr)
  assume "\<not> n \<le> CAP"
  then have "initialize n s = Inl OutOfBounds"
    by (simp add: initialize_overflow)
  with assms show False
    by simp
qed

lemma apply_ops_total:
  "uf_inv n s \<Longrightarrow> list_all (op_ok n) ops \<Longrightarrow>
   \<exists>s'. apply_ops ops s = Some (Inr s') \<and> uf_inv n s'"
proof (induction ops arbitrary: s)
  case Nil
  then show ?case by simp
next
  case (Cons op ops)
  show ?case
  proof (cases op)
    case (Find x)
    with Cons.prems have "in_range n x"
      by simp
    from find_uf_spec [OF Cons.prems(1) this] obtain r s1 where
      "find_uf x s = Some (Inr (r, s1))" "uf_inv n s1"
      by blast
    with Cons.IH [of s1] Cons.prems(2) Find show ?thesis
      by simp
  next
    case (Union x y)
    with Cons.prems have "in_range n x" "in_range n y"
      by simp_all
    from union_sets_spec [OF Cons.prems(1) this] obtain s1 where
      "union_sets x y s = Some (Inr s1)" "uf_inv n s1"
      by blast
    with Cons.IH [of s1] Cons.prems(2) Union show ?thesis
      by simp
  qed
qed

lemma reach_total:
  assumes "0 \<le> n" "n \<le> CAP" "list_all (op_ok n) ops"
  shows "\<exists>s. reach n ops = Some (Inr s) \<and> uf_inv n s"
proof -
  from initialize_spec [OF assms(1,2)] obtain s0 where
    "initialize n uf0 = Inr s0" "uf_inv n s0"
    by blast
  with apply_ops_total [OF _ assms(3), of s0] show ?thesis
    by (simp add: reach_def)
qed

lemma reach_inv:
  assumes "reach n ops = Some (Inr s)" "list_all (op_ok n) ops" "0 \<le> n"
  shows "uf_inv n s"
proof -
  from assms(1) obtain s0 where i: "initialize n uf0 = Inr s0"
    by (auto simp: reach_def split: sum.splits)
  from reach_total [OF assms(3) initialize_Inr_cap [OF i] assms(2)] assms(1)
  show ?thesis
    by auto
qed

lemma in_range_nonneg: "in_range n x \<Longrightarrow> 0 \<le> n"
  by (simp add: in_range_def)

lemma funpow_parent:
  assumes inv: "uf_inv n s" and x: "in_range n x"
  shows "in_range n ((parent s ^^ k) x) \<and> rank s x \<le> rank s ((parent s ^^ k) x)"
proof (induction k)
  case 0
  show ?case using x by simp
next
  case (Suc k)
  let ?y = "(parent s ^^ k) x"
  have y: "in_range n ?y" and le: "rank s x \<le> rank s ?y"
    using Suc by simp_all
  have "rank s ?y \<le> rank s (parent s ?y)"
    using uf_inv_rank_lt [OF inv y] by (cases "parent s ?y = ?y") simp_all
  then show ?case
    using uf_inv_parent [OF inv y] le by simp
qed

lemma uf_inv_forest:
  assumes inv: "uf_inv n s"
  shows "forest n (parent s)"
proof -
  have "(parent s ^^ k) x \<noteq> x" if x: "in_range n x" and nr: "parent s x \<noteq> x" and k: "0 < k"
    for x k
  proof -
    from k obtain j where j: "k = Suc j"
      by (cases k) simp_all
    have "rank s x < rank s (parent s x)"
      using inv x nr by (rule uf_inv_rank_lt)
    also have "\<dots> \<le> rank s ((parent s ^^ j) (parent s x))"
      using funpow_parent [OF inv uf_inv_parent [OF inv x]] by simp
    finally show ?thesis
      by (auto simp: j funpow_swap1)
  qed
  then show ?thesis
    using uf_inv_parent [OF inv] by (auto simp: forest_def)
qed

lemma find_results_roots:
  assumes inv: "uf_inv n s"
  shows "{r. \<exists>x s'. in_range n x \<and> find_uf x s = Some (Inr (r, s'))} = roots n s"
proof (intro set_eqI iffI)
  fix r
  assume "r \<in> {r. \<exists>x s'. in_range n x \<and> find_uf x s = Some (Inr (r, s'))}"
  then obtain x s' where x: "in_range n x" and f: "find_uf x s = Some (Inr (r, s'))"
    by blast
  from f have "find_root x s = Some r"
    by (simp add: find_root_def)
  from find_rootD(1,2) [OF inv x this] show "r \<in> roots n s"
    by (simp add: roots_def)
next
  fix r
  assume "r \<in> roots n s"
  then have r: "in_range n r" "parent s r = r"
    by (simp_all add: roots_def)
  have "find_uf r s = Some (Inr (r, s))"
    using in_range_in_bounds [OF uf_inv_cap [OF inv] r(1)] r(2) by (rule find_uf_at_root)
  with r(1) show "r \<in> {r. \<exists>x s'. in_range n x \<and> find_uf x s = Some (Inr (r, s'))}"
    by blast
qed

text \<open>Paths after compression, and union_sets inside one component.\<close>

lemma find_root_funpow:
  assumes inv: "uf_inv n s"
  shows "in_range n v \<Longrightarrow> find_root v s = Some r \<Longrightarrow> \<exists>m. r = (parent s ^^ m) v"
proof (induction "nat (n - rank s v)" arbitrary: v rule: less_induct)
  case less
  show ?case
  proof (cases "parent s v = v")
    case True
    from find_root_of_root [OF inv less.prems(1) True] less.prems(2) have "r = (parent s ^^ 0) v"
      by simp
    then show ?thesis
      by blast
  next
    case False
    have pr: "in_range n (parent s v)"
      using inv less.prems(1) by (rule uf_inv_parent)
    have "rank s v < rank s (parent s v)"
      using inv less.prems(1) False by (rule uf_inv_rank_lt)
    moreover have "rank s (parent s v) \<le> n"
      using inv pr by (rule uf_inv_rank_le)
    ultimately have "nat (n - rank s (parent s v)) < nat (n - rank s v)"
      by simp
    moreover have "find_root (parent s v) s = Some r"
      using find_root_step [OF inv less.prems(1) False] less.prems(2) by simp
    ultimately obtain m where "r = (parent s ^^ m) (parent s v)"
      using less.hyps [OF _ pr] by blast
    then have "r = (parent s ^^ Suc m) v"
      by (simp add: funpow_swap1)
    then show ?thesis
      by blast
  qed
qed

lemma compressed_path:
  assumes inv: "uf_inv n s" and c: "compressed n s s1" and y: "in_range n y"
  shows "\<exists>j. (parent s1 ^^ k) y = (parent s ^^ j) y"
proof (induction k)
  case 0
  have "(parent s1 ^^ 0) y = (parent s ^^ 0) y"
    by simp
  then show ?case
    by blast
next
  case (Suc k)
  then obtain j where j: "(parent s1 ^^ k) y = (parent s ^^ j) y"
    by blast
  let ?v = "(parent s ^^ j) y"
  have v: "in_range n ?v"
    using funpow_parent [OF inv y, of j] by simp
  have s: "(parent s1 ^^ Suc k) y = parent s1 ?v"
    using j by simp
  show ?case
  proof (cases "parent s1 ?v = parent s ?v")
    case True
    with s have "(parent s1 ^^ Suc k) y = (parent s ^^ Suc j) y"
      by simp
    then show ?thesis
      by blast
  next
    case False
    with compressed_parent [OF inv c, of ?v] have "find_root ?v s = Some (parent s1 ?v)"
      by simp
    from find_root_funpow [OF inv v this] obtain m where "parent s1 ?v = (parent s ^^ m) ?v"
      by blast
    with s have "(parent s1 ^^ Suc k) y = (parent s ^^ (m + j)) y"
      by (simp add: funpow_add)
    then show ?thesis
      by blast
  qed
qed

lemma union_sets_same_root:
  assumes inv: "uf_inv n s" and x: "in_range n x" and y: "in_range n y"
    and eq: "find_root x s = find_root y s"
  shows "\<exists>s'. union_sets x y s = Some (Inr s') \<and> uf_inv n s' \<and>
           compressed n s s' \<and> compressed_by x y s s'"
proof -
  from find_uf_spec [OF inv x] obtain r s1 where
    fx: "find_uf x s = Some (Inr (r, s1))" and frx: "find_root x s = Some r"
    and c1: "compressed n s s1" and inv1: "uf_inv n s1"
    and ch1: "\<forall>u. parent s1 u \<noteq> parent s u \<longrightarrow>
                parent s1 u = r \<and> (\<exists>k. u = (parent s ^^ k) x)"
    by blast
  from find_uf_spec [OF inv1 y] obtain ry s2 where
    fy: "find_uf y s1 = Some (Inr (ry, s2))" and fry1: "find_root y s1 = Some ry"
    and c2: "compressed n s1 s2" and inv2: "uf_inv n s2"
    and ch2: "\<forall>u. parent s2 u \<noteq> parent s1 u \<longrightarrow>
                parent s2 u = ry \<and> (\<exists>k. u = (parent s1 ^^ k) y)"
    by blast
  have "find_root y s = Some ry"
    using compressed_find_root [OF inv c1 y] fry1 by simp
  with eq frx have ry: "ry = r"
    by simp
  have c: "compressed n s s2"
    using inv c1 c2 by (rule compressed_trans)
  have u: "union_sets x y s = Some (Inr s2)"
    by (simp add: union_sets_def fx fy ry)
  have moved: "parent s2 u = r \<and> find_root u s = Some r \<and>
      (\<exists>k. u = (parent s ^^ k) x \<or> u = (parent s ^^ k) y)"
    if d: "parent s2 u \<noteq> parent s u" for u
  proof -
    have fr: "find_root u s = Some (parent s2 u)"
      using c d by (auto simp: compressed_def)
    show ?thesis
    proof (cases "parent s2 u = parent s1 u")
      case True
      with d ch1 have "parent s1 u = r" "\<exists>k. u = (parent s ^^ k) x"
        by auto
      with True fr show ?thesis
        by auto
    next
      case False
      with ch2 ry obtain k where k: "parent s2 u = r" "u = (parent s1 ^^ k) y"
        by auto
      from compressed_path [OF inv c1 y, of k] k(2) obtain j where "u = (parent s ^^ j) y"
        by auto
      with k(1) fr show ?thesis
        by auto
    qed
  qed
  have "rank s2 = rank s" "component_count s2 = component_count s"
    using c by (simp_all add: compressed_def)
  with fx fy ry moved have "compressed_by x y s s2"
    unfolding compressed_by_def by blast
  with u inv2 c show ?thesis
    by blast
qed

section \<open>The loop of main under the invariant\<close>

lemma bind_res_assoc:
  "bind_res (bind_res m f) g = bind_res m (\<lambda>v. bind_res (f v) g)"
  by (simp add: bind_res_def split: option.splits sum.splits)

lemma bind_res_return: "bind_res m (\<lambda>v. Some (Inr v)) = m"
  by (simp add: bind_res_def split: option.splits sum.splits)

lemma bind_res_Inr:
  "bind_res m f = Some (Inr w) \<Longrightarrow> \<exists>v. m = Some (Inr v) \<and> f v = Some (Inr w)"
  by (simp add: bind_res_def split: option.splits sum.splits)

lemma main_loop_done: "Q \<le> i \<Longrightarrow> main_loop N Q i qs st = Some (Inr st)"
  by (induction N Q i qs st rule: main_loop.induct) simp_all

lemma main_loop_done_fun: "Q \<le> i \<Longrightarrow> main_loop N Q i qs = (\<lambda>st. Some (Inr st))"
  by (rule ext) (rule main_loop_done)

lemma main_loop_snoc:
  "i \<le> k \<Longrightarrow> nat (k - i) < length qs \<Longrightarrow>
   main_loop N (k + 1) i qs st =
     bind_res (main_loop N k i qs st)
       (\<lambda>st'. loop_body N k (fst (qs ! nat (k - i))) (snd (qs ! nat (k - i))) st')"
proof (induction qs arbitrary: i st)
  case Nil
  then show ?case by simp
next
  case (Cons q rest)
  obtain a b where q: "q = (a, b)"
    by (cases q)
  show ?case
  proof (cases "i = k")
    case True
    then show ?thesis
      by (simp add: q main_loop_done main_loop_done_fun bind_res_return)
  next
    case False
    with Cons.prems have lt: "i < k" and le: "i + 1 \<le> k" and n: "nat (k - (i + 1)) < length rest"
      by auto
    let ?j = "nat (k - (i + 1))"
    let ?step = "\<lambda>st'. loop_body N k (fst (rest ! ?j)) (snd (rest ! ?j)) st'"
    have "nat (k - i) = Suc ?j"
      using lt by simp
    then have idx: "((a, b) # rest) ! nat (k - i) = rest ! ?j"
      by simp
    have ih: "main_loop N (k + 1) (i + 1) rest = (\<lambda>st1. bind_res (main_loop N k (i + 1) rest st1) ?step)"
      by (rule ext) (rule Cons.IH [OF le n])
    have "main_loop N (k + 1) i ((a, b) # rest) st =
        bind_res (loop_body N i a b st) (main_loop N (k + 1) (i + 1) rest)"
      using lt by simp
    also have "\<dots> = bind_res (bind_res (loop_body N i a b st) (main_loop N k (i + 1) rest)) ?step"
      unfolding ih by (simp add: bind_res_assoc)
    also have "bind_res (loop_body N i a b st) (main_loop N k (i + 1) rest) =
        main_loop N k i ((a, b) # rest) st"
      using lt by simp
    finally show ?thesis
      unfolding q idx .
  qed
qed

lemma main_loop_Inr_length:
  "main_loop N Q i qs st = Some (Inr st') \<Longrightarrow> Q - i \<le> int (length qs)"
proof (induction qs arbitrary: i st)
  case Nil
  then show ?case
    by (simp split: if_splits)
next
  case (Cons q rest)
  obtain a b where q: "q = (a, b)"
    by (cases q)
  show ?case
  proof (cases "i < Q")
    case True
    with Cons.prems obtain st1 where "main_loop N Q (i + 1) rest st1 = Some (Inr st')"
      by (auto simp: q dest: bind_res_Inr)
    from Cons.IH [OF this] show ?thesis
      by simp
  next
    case False
    then show ?thesis by simp
  qed
qed

lemma main_state_Suc:
  assumes "0 \<le> k" "nat k < length qs"
  shows "main_state N (k + 1) qs =
     bind_res (main_state N k qs)
       (\<lambda>st. loop_body N k (fst (qs ! nat k)) (snd (qs ! nat k)) st)"
  using main_loop_snoc [of 0 k qs N] assms
  by (simp add: main_state_def split: sum.splits)

lemma main_state_Inr_length:
  assumes "main_state N Q qs = Some (Inr st)"
  shows "Q \<le> int (length qs)"
  using assms main_loop_Inr_length [of N Q 0 qs]
  by (auto simp: main_state_def split: sum.splits)

lemma main_state_0:
  assumes "0 \<le> N" "N \<le> CAP"
  shows "\<exists>s0. initialize N uf0 = Inr s0 \<and> uf_inv N s0 \<and> component_count s0 = N \<and>
     main_state N 0 qs = Some (Inr \<lparr>ds = s0, F = 0, out = []\<rparr>)"
  using initialize_spec [OF assms] by (auto simp: main_state_def main_loop_done)

lemma smod_pos:
  assumes "1 \<le> (N::int)"
  shows "- N < k smod N" "k smod N < N" "0 \<le> k \<Longrightarrow> k smod N = k mod N"
proof -
  have m: "0 \<le> \<bar>k\<bar> mod N" "\<bar>k\<bar> mod N < N"
    using assms by simp_all
  have a: "\<bar>N\<bar> = N"
    using assms by simp
  show "- N < k smod N" "k smod N < N"
    using m by (cases "0 \<le> k"; simp add: signed_modulo_int_def a sgn_if)+
  show "k smod N = k mod N" if "0 \<le> k"
    using that by (simp add: signed_modulo_int_def a sgn_if)
qed

lemma decode_pos:
  assumes "1 \<le> N"
  shows "decode N acc a b =
     Inr (min ((a XOR acc) smod N) ((b XOR acc) smod N),
          max ((a XOR acc) smod N) ((b XOR acc) smod N))"
  using assms by (simp add: decode_def Let_def min_def max_def)

lemma decode_range:
  assumes "1 \<le> N" "decode N acc a b = Inr (x, y)"
  shows "x \<le> y" "- N < x" "y < N"
  using assms(2) smod_pos(1,2) [OF assms(1)]
  unfolding decode_pos [OF assms(1)] by (auto simp: min_def max_def split: if_splits)

lemma decode_nonneg:
  assumes "1 \<le> N" "0 \<le> a" "0 \<le> b" "0 \<le> acc"
  shows "decode N acc a b =
     Inr (min ((a XOR acc) mod N) ((b XOR acc) mod N),
          max ((a XOR acc) mod N) ((b XOR acc) mod N))"
  using assms by (simp add: decode_pos smod_pos(3))

lemma find_uf_out_of_bounds: "\<not> in_bounds x \<Longrightarrow> find_uf x s = Some (Inl OutOfBounds)"
  by (subst find_uf.simps) simp

lemma uf_inv_count_range:
  assumes "uf_inv n s" "1 \<le> n"
  shows "1 \<le> component_count s" "component_count s \<le> n"
proof -
  have z: "in_range n 0"
    using assms(2) by (simp add: in_range_def)
  from find_root_total [OF assms(1) z] obtain r where "in_range n r" "parent s r = r"
    by blast
  then show "1 \<le> component_count s"
    by (rule roots_nonempty_count [OF assms(1)])
  show "component_count s \<le> n"
    using uf_inv_rank_bound [OF assms(1) z] by simp
qed

text \<open>One iteration of the loop of main on a state satisfying the invariant.\<close>

lemma loop_body_neg:
  assumes "decode N (F st) a b = Inr (x, y)" "x < 0"
  shows "loop_body N i a b st = Some (Inl OutOfBounds)"
proof -
  have "find_uf x s = Some (Inl OutOfBounds)" for s
    using assms(2) by (simp add: find_uf_out_of_bounds in_bounds_def)
  then show ?thesis
    using assms(1) by (simp add: loop_body_def union_sets_def)
qed

lemma loop_body_even:
  assumes inv: "uf_inv N (ds st)" and d: "decode N (F st) a b = Inr (x, y)"
    and x: "in_range N x" and y: "in_range N y" and i: "i mod 2 = 0"
  shows "\<exists>s'. union_sets x y (ds st) = Some (Inr s') \<and> uf_inv N s' \<and>
           loop_body N i a b st = add_F (component_count s') (st\<lparr>ds := s'\<rparr>)"
proof -
  from union_sets_spec [OF inv x y] obtain s' where
    "union_sets x y (ds st) = Some (Inr s')" "uf_inv N s'"
    by blast
  then show ?thesis
    using d i by (simp add: loop_body_def)
qed

lemma loop_body_odd:
  assumes inv: "uf_inv N (ds st)" and d: "decode N (F st) a b = Inr (x, y)"
    and x: "in_range N x" and y: "in_range N y" and i: "i mod 2 \<noteq> 0"
  shows "\<exists>s'. compressed N (ds st) s' \<and> uf_inv N s' \<and>
           loop_body N i a b st =
             add_F (component_count s')
               (st\<lparr>ds := s',
                   out := out st @
                     [if find_root x (ds st) = find_root y (ds st) then ''1'' else ''0'']\<rparr>)"
proof -
  from find_uf_spec [OF inv x] obtain rx s1 where
    fx: "find_uf x (ds st) = Some (Inr (rx, s1))" and frx: "find_root x (ds st) = Some rx"
    and c1: "compressed N (ds st) s1" and inv1: "uf_inv N s1"
    by blast
  from find_uf_spec [OF inv1 y] obtain ry s2 where
    fy: "find_uf y s1 = Some (Inr (ry, s2))" and fry1: "find_root y s1 = Some ry"
    and c2: "compressed N s1 s2" and inv2: "uf_inv N s2"
    by blast
  have fry: "find_root y (ds st) = Some ry"
    using compressed_find_root [OF inv c1 y] fry1 by simp
  have "compressed N (ds st) s2"
    using inv c1 c2 by (rule compressed_trans)
  moreover have "loop_body N i a b st =
      add_F (component_count s2)
        (st\<lparr>ds := s2, out := out st @
           [if find_root x (ds st) = find_root y (ds st) then ''1'' else ''0'']\<rparr>)"
    using d i by (simp add: loop_body_def fx fy frx fry)
  ultimately show ?thesis
    using inv2 by blast
qed

lemma add_F_Inr: "add_F c st = Some (Inr st') \<Longrightarrow> st' = st\<lparr>F := F st + c\<rparr>"
  by (auto simp: add_F_def split: if_splits)

lemma add_F_ok:
  "LLONG_MIN \<le> F st + c \<Longrightarrow> F st + c \<le> LLONG_MAX \<Longrightarrow>
   add_F c st = Some (Inr (st\<lparr>F := F st + c\<rparr>))"
  by (simp add: add_F_def)

lemma add_F_Some: "\<exists>r. add_F c st = Some r"
  by (simp add: add_F_def)

lemma loop_body_Inr:
  assumes N: "1 \<le> N" and inv: "uf_inv N (ds st)"
    and l: "loop_body N i a b st = Some (Inr st')"
  shows "\<exists>x y. decode N (F st) a b = Inr (x, y) \<and> x \<le> y \<and> in_range N x \<and> in_range N y \<and>
     uf_inv N (ds st') \<and> F st' = F st + component_count (ds st') \<and>
     (i mod 2 = 0 \<longrightarrow> union_sets x y (ds st) = Some (Inr (ds st')) \<and> out st' = out st) \<and>
     (i mod 2 \<noteq> 0 \<longrightarrow> compressed N (ds st) (ds st') \<and>
        out st' = out st @ [if find_root x (ds st) = find_root y (ds st) then ''1'' else ''0''])"
proof -
  obtain x y where d: "decode N (F st) a b = Inr (x, y)"
    using decode_pos [OF N] by blast
  note r = decode_range [OF N d]
  have "\<not> x < 0"
    using loop_body_neg [OF d] l by auto
  with r have x: "in_range N x" and y: "in_range N y"
    by (simp_all add: in_range_def)
  show ?thesis
  proof (cases "i mod 2 = 0")
    case True
    from loop_body_even [OF inv d x y True] l obtain s' where
      u: "union_sets x y (ds st) = Some (Inr s')" and i': "uf_inv N s'"
      and a: "add_F (component_count s') (st\<lparr>ds := s'\<rparr>) = Some (Inr st')"
      by auto
    from add_F_Inr [OF a] have "ds st' = s'" "out st' = out st"
      "F st' = F st + component_count s'"
      by simp_all
    with d r(1) x y u i' True show ?thesis
      by auto
  next
    case False
    let ?o = "out st @ [if find_root x (ds st) = find_root y (ds st) then ''1'' else ''0'']"
    from loop_body_odd [OF inv d x y False] l obtain s' where
      c: "compressed N (ds st) s'" and i': "uf_inv N s'"
      and a: "add_F (component_count s') (st\<lparr>ds := s', out := ?o\<rparr>) = Some (Inr st')"
      by auto
    from add_F_Inr [OF a] have "ds st' = s'" "out st' = ?o"
      "F st' = F st + component_count s'"
      by simp_all
    with d r(1) x y c i' False show ?thesis
      by auto
  qed
qed

lemma loop_body_Some:
  assumes N: "1 \<le> N" and inv: "uf_inv N (ds st)"
  shows "\<exists>r. loop_body N i a b st = Some r"
proof -
  obtain x y where d: "decode N (F st) a b = Inr (x, y)"
    using decode_pos [OF N] by blast
  note r = decode_range [OF N d]
  show ?thesis
  proof (cases "x < 0")
    case True
    from loop_body_neg [OF d this] show ?thesis
      by simp
  next
    case False
    with r have x: "in_range N x" and y: "in_range N y"
      by (simp_all add: in_range_def)
    show ?thesis
      using loop_body_even [OF inv d x y, of i] loop_body_odd [OF inv d x y, of i] add_F_Some
      by (cases "i mod 2 = 0") auto
  qed
qed

lemma loop_body_valid:
  assumes N: "1 \<le> N" and inv: "uf_inv N (ds st)"
    and a: "0 \<le> a" "0 \<le> b" and f: "0 \<le> F st" "F st + N \<le> LLONG_MAX"
  shows "\<exists>st'. loop_body N i a b st = Some (Inr st')"
proof -
  obtain x y where d: "decode N (F st) a b = Inr (x, y)"
    using decode_pos [OF N] by blast
  have "0 \<le> (a XOR F st) mod N" "0 \<le> (b XOR F st) mod N"
    using N by simp_all
  then have "0 \<le> x"
    using d unfolding decode_nonneg [OF N a f(1)] by auto
  with decode_range [OF N d] have x: "in_range N x" and y: "in_range N y"
    by (simp_all add: in_range_def)
  have ok: "add_F (component_count s') t = Some (Inr (t\<lparr>F := F t + component_count s'\<rparr>))"
    if "uf_inv N s'" "F t = F st" for s' t
    using uf_inv_count_range [OF that(1) N] f that(2)
    by (intro add_F_ok) (simp_all add: LLONG_MIN_def)
  show ?thesis
  proof (cases "i mod 2 = 0")
    case True
    from loop_body_even [OF inv d x y True] obtain s' where
      "uf_inv N s'" "loop_body N i a b st = add_F (component_count s') (st\<lparr>ds := s'\<rparr>)"
      by blast
    with ok [of s' "st\<lparr>ds := s'\<rparr>"] show ?thesis
      by simp
  next
    case False
    let ?o = "out st @ [if find_root x (ds st) = find_root y (ds st) then ''1'' else ''0'']"
    from loop_body_odd [OF inv d x y False] obtain s' where
      "uf_inv N s'"
      "loop_body N i a b st = add_F (component_count s') (st\<lparr>ds := s', out := ?o\<rparr>)"
      by blast
    with ok [of s' "st\<lparr>ds := s', out := ?o\<rparr>"] show ?thesis
      by simp
  qed
qed

lemma main_state_pred:
  assumes "0 \<le> k" "main_state N (k + 1) qs = Some (Inr st')"
  shows "nat k < length qs \<and>
     (\<exists>st. main_state N k qs = Some (Inr st) \<and>
           loop_body N k (fst (qs ! nat k)) (snd (qs ! nat k)) st = Some (Inr st'))"
proof -
  have n: "nat k < length qs"
    using main_state_Inr_length [OF assms(2)] assms(1) by simp
  from assms(2) show ?thesis
    unfolding main_state_Suc [OF assms(1) n] using n by (auto dest: bind_res_Inr)
qed

lemma main_state_inv:
  assumes N: "1 \<le> N"
  shows "main_state N (int k) qs = Some (Inr st) \<Longrightarrow>
     uf_inv N (ds st) \<and> 0 \<le> F st \<and> F st \<le> int k * N \<and> length (out st) = k div 2 \<and>
     F st = (\<Sum>j = 1..k. count_after N qs j)"
proof (induction k arbitrary: st)
  case 0
  then obtain s0 where i: "initialize N uf0 = Inr s0"
    by (auto simp: main_state_def split: sum.splits)
  have "0 \<le> N"
    using N by simp
  from main_state_0 [OF this initialize_Inr_cap [OF i], of qs] 0 show ?case
    by auto
next
  case (Suc k)
  have k: "(0::int) \<le> int k"
    by simp
  from Suc.prems have "main_state N (int k + 1) qs = Some (Inr st)"
    by (simp add: add.commute)
  from main_state_pred [OF k this] obtain st0 where
    m: "main_state N (int k) qs = Some (Inr st0)"
    and l: "loop_body N (int k) (fst (qs ! k)) (snd (qs ! k)) st0 = Some (Inr st)"
    by auto
  note ih = Suc.IH [OF m]
  from ih have inv0: "uf_inv N (ds st0)"
    by simp
  from loop_body_Inr [OF N inv0 l] obtain x y where
    *: "decode N (F st0) (fst (qs ! k)) (snd (qs ! k)) = Inr (x, y) \<and> x \<le> y \<and>
     in_range N x \<and> in_range N y \<and>
     uf_inv N (ds st) \<and> F st = F st0 + component_count (ds st) \<and>
     (int k mod 2 = 0 \<longrightarrow> union_sets x y (ds st0) = Some (Inr (ds st)) \<and> out st = out st0) \<and>
     (int k mod 2 \<noteq> 0 \<longrightarrow> compressed N (ds st0) (ds st) \<and>
        out st = out st0 @ [if find_root x (ds st0) = find_root y (ds st0) then ''1'' else ''0''])"
    by (elim exE) (rule that)
  from * have inv: "uf_inv N (ds st)" and f: "F st = F st0 + component_count (ds st)"
    by simp_all
  from * have o: "int k mod 2 = 0 \<longrightarrow> length (out st) = length (out st0)"
      "int k mod 2 \<noteq> 0 \<longrightarrow> length (out st) = Suc (length (out st0))"
    by simp_all
  note c = uf_inv_count_range [OF inv N]
  have "length (out st) = Suc k div 2"
  proof (cases "int k mod 2 = 0")
    case True
    then have "even k"
      by presburger
    with o(1) True ih show ?thesis
      by simp
  next
    case False
    then have "odd k"
      by presburger
    with o(2) False ih show ?thesis
      by simp
  qed
  moreover have "count_after N qs (Suc k) = component_count (ds st)"
    using Suc.prems by (simp add: count_after_def)
  moreover have "F st \<le> int (Suc k) * N"
    using ih c f by (simp add: algebra_simps)
  ultimately show ?case
    using inv ih c f by simp
qed

lemma main_step:
  assumes N: "1 \<le> N" and k: "0 \<le> k" and m: "main_state N (k + 1) qs = Some (Inr st')"
  shows "\<exists>st a b x y.
     main_state N k qs = Some (Inr st) \<and> nat k < length qs \<and> qs ! nat k = (a, b) \<and>
     decode N (F st) a b = Inr (x, y) \<and> x \<le> y \<and> in_range N x \<and> in_range N y \<and>
     uf_inv N (ds st) \<and> uf_inv N (ds st') \<and>
     F st' = F st + component_count (ds st') \<and>
     (k mod 2 = 0 \<longrightarrow> union_sets x y (ds st) = Some (Inr (ds st')) \<and> out st' = out st) \<and>
     (k mod 2 \<noteq> 0 \<longrightarrow> compressed N (ds st) (ds st') \<and>
        out st' = out st @ [if find_root x (ds st) = find_root y (ds st) then ''1'' else ''0''])"
proof -
  from main_state_pred [OF k m] obtain st where
    n: "nat k < length qs" and m0: "main_state N k qs = Some (Inr st)"
    and l: "loop_body N k (fst (qs ! nat k)) (snd (qs ! nat k)) st = Some (Inr st')"
    by auto
  have "main_state N (int (nat k)) qs = Some (Inr st)"
    using m0 k by simp
  from main_state_inv [OF N this] have inv: "uf_inv N (ds st)"
    by simp
  from loop_body_Inr [OF N inv l] obtain x y where
    "decode N (F st) (fst (qs ! nat k)) (snd (qs ! nat k)) = Inr (x, y) \<and> x \<le> y \<and>
     in_range N x \<and> in_range N y \<and>
     uf_inv N (ds st') \<and> F st' = F st + component_count (ds st') \<and>
     (k mod 2 = 0 \<longrightarrow> union_sets x y (ds st) = Some (Inr (ds st')) \<and> out st' = out st) \<and>
     (k mod 2 \<noteq> 0 \<longrightarrow> compressed N (ds st) (ds st') \<and>
        out st' = out st @ [if find_root x (ds st) = find_root y (ds st) then ''1'' else ''0''])"
    by (elim exE) (rule that)
  with m0 n inv show ?thesis
    by (intro exI [of _ st] exI [of _ "fst (qs ! nat k)"] exI [of _ "snd (qs ! nat k)"]
        exI [of _ x] exI [of _ y]) simp
qed

lemma main_loop_Some:
  assumes N: "1 \<le> N"
  shows "uf_inv N (ds st) \<Longrightarrow> \<exists>r. main_loop N Q i qs st = Some r"
proof (induction qs arbitrary: i st)
  case Nil
  then show ?case by simp
next
  case (Cons q rest)
  obtain a b where q: "q = (a, b)"
    by (cases q)
  from loop_body_Some [OF N Cons.prems] obtain r where r: "loop_body N i a b st = Some r"
    by blast
  show ?case
  proof (cases r)
    case (Inl e)
    with r show ?thesis
      by (simp add: q)
  next
    case (Inr st1)
    with r loop_body_Inr [OF N Cons.prems, of i a b st1] have "uf_inv N (ds st1)"
      by blast
    from Cons.IH [OF this, of "i + 1"] r Inr show ?thesis
      by (simp add: q)
  qed
qed

lemma main_state_Some:
  assumes N: "1 \<le> N"
  shows "\<exists>r. main_state N Q qs = Some r"
proof (cases "initialize N uf0")
  case (Inl e)
  then show ?thesis
    by (simp add: main_state_def)
next
  case (Inr s0)
  have "0 \<le> N"
    using N by simp
  from initialize_spec [OF this initialize_Inr_cap [OF Inr]] Inr have "uf_inv N s0"
    by simp
  then have "uf_inv N (ds \<lparr>ds = s0, F = 0, out = []\<rparr>)"
    by simp
  from main_loop_Some [OF N this] Inr show ?thesis
    by (simp add: main_state_def)
qed

lemma CAP_INT_MAX_LLONG_MAX: "INT_MAX * CAP \<le> LLONG_MAX"
  by (simp add: INT_MAX_def CAP_def LLONG_MAX_def)

lemma list_all_take_nth:
  assumes "list_all P (take m qs)" "j < m" "j < length qs"
  shows "P (qs ! j)"
proof -
  have "j < length (take m qs)"
    using assms(2,3) by simp
  with assms(1) have "P (take m qs ! j)"
    by (simp only: list_all_length)
  then show ?thesis
    using assms(2) by simp
qed

lemma valid_input_nth:
  assumes "valid_input N Q qs" "0 \<le> k" "k < Q"
  shows "nat k < length qs" "0 \<le> fst (qs ! nat k)" "0 \<le> snd (qs ! nat k)"
proof -
  from assms(1) have "Q \<le> int (length qs)"
    by (simp add: valid_input_def)
  with assms(2,3) show n: "nat k < length qs"
    by simp
  from assms(1) have
    "list_all (\<lambda>(a, b). 0 \<le> a \<and> a \<le> LLONG_MAX \<and> 0 \<le> b \<and> b \<le> LLONG_MAX) (take (nat Q) qs)"
    by (simp add: valid_input_def)
  moreover have "nat k < nat Q"
    using assms(2,3) by simp
  ultimately have
    "(\<lambda>(a, b). 0 \<le> a \<and> a \<le> LLONG_MAX \<and> 0 \<le> b \<and> b \<le> LLONG_MAX) (qs ! nat k)"
    using n by (rule list_all_take_nth)
  then show "0 \<le> fst (qs ! nat k)" "0 \<le> snd (qs ! nat k)"
    by (simp_all add: case_prod_beta)
qed

lemma main_state_valid:
  assumes v: "valid_input N Q qs"
  shows "k \<le> nat Q \<Longrightarrow> \<exists>st. main_state N (int k) qs = Some (Inr st)"
proof (induction k)
  case 0
  have "0 \<le> N" "N \<le> CAP"
    using v by (simp_all add: valid_input_def)
  from main_state_0 [OF this] show ?case
    by auto
next
  case (Suc k)
  have N: "1 \<le> N" "N \<le> CAP" and Q: "Q \<le> INT_MAX"
    using v by (simp_all add: valid_input_def)
  have k: "(0::int) \<le> int k" "int k < Q"
    using Suc.prems by simp_all
  note q = valid_input_nth [OF v k]
  from Suc obtain st where m: "main_state N (int k) qs = Some (Inr st)"
    by auto
  note i = main_state_inv [OF N(1) m]
  have "(int k + 1) * N \<le> INT_MAX * CAP"
    using k Q N by (intro mult_mono) simp_all
  then have "F st + N \<le> LLONG_MAX"
    using i CAP_INT_MAX_LLONG_MAX by (simp add: algebra_simps)
  with loop_body_valid [OF N(1), of st "fst (qs ! k)" "snd (qs ! k)" "int k"] i q obtain st' where
    "loop_body N (int k) (fst (qs ! k)) (snd (qs ! k)) st = Some (Inr st')"
    by auto
  with m main_state_Suc [OF k(1), of qs N] q(1) show ?case
    by (simp add: add.commute)
qed

lemma union_sets_count:
  assumes inv: "uf_inv n s" and x: "in_range n x" and y: "in_range n y"
    and u: "union_sets x y s = Some (Inr s')"
  shows "component_count s' =
     (if find_root x s = find_root y s then component_count s else component_count s - 1)"
proof -
  from union_sets_spec [OF inv x y] u obtain rx ry s2 where
    f: "find_root x s = Some rx" "find_root y s = Some ry"
    and c: "compressed n s s2"
    and e: "rx = ry \<longrightarrow> s' = s2"
    and d: "rx \<noteq> ry \<longrightarrow> component_count s' = component_count s - 1"
    by auto
  have "component_count s2 = component_count s"
    using c by (simp add: compressed_def)
  with f e d show ?thesis
    by auto
qed

text \<open>Unfolding the program on concrete inputs.\<close>

lemmas run_simps =
  main_def main_state_def initialize_def init_loop.simps uf0_def in_bounds_def CAP_def
  loop_body_def decode_def union_sets_def find_uf.simps find_root_def add_F_def
  LLONG_MAX_def LLONG_MIN_def INT_MIN_def INT_MAX_def signed_modulo_int_def

section \<open>Properties of find and union_sets\<close>

text \<open>
  C1. For elements \<open>x\<close>, \<open>y\<close> of \<open>[0, n)\<close> whose representatives \<open>rx\<close>, \<open>ry\<close>
  differ, \<open>union_sets x y\<close> returns and merges by rank: the root of strictly greater
  rank becomes the parent of the other root; on equal ranks \<open>rx\<close> becomes the parent of
  \<open>ry\<close> and the rank of \<open>rx\<close> grows by exactly 1 (no other rank changes); and
  \<open>component_count\<close> decreases by exactly 1.
\<close>

theorem union_by_rank:
  assumes "reach n ops = Some (Inr s)" "list_all (op_ok n) ops"
    and "in_range n x" "in_range n y"
    and "find_root x s = Some rx" "find_root y s = Some ry" "rx \<noteq> ry"
  shows "\<exists>s'. union_sets x y s = Some (Inr s') \<and>
           component_count s' = component_count s - 1 \<and>
           (rank s ry < rank s rx \<longrightarrow>
              parent s' ry = rx \<and> parent s' rx = rx \<and> rank s' = rank s \<and>
              find_root x s' = Some rx \<and> find_root y s' = Some rx) \<and>
           (rank s rx < rank s ry \<longrightarrow>
              parent s' rx = ry \<and> parent s' ry = ry \<and> rank s' = rank s \<and>
              find_root x s' = Some ry \<and> find_root y s' = Some ry) \<and>
           (rank s rx = rank s ry \<longrightarrow>
              parent s' ry = rx \<and> parent s' rx = rx \<and>
              rank s' = (rank s)(rx := rank s rx + 1) \<and>
              find_root x s' = Some rx \<and> find_root y s' = Some rx)"
proof -
  have inv: "uf_inv n s"
    using assms(1,2) in_range_nonneg [OF assms(3)] by (rule reach_inv)
  from union_sets_spec [OF inv assms(3,4)] assms(5-7) obtain s2 s' where
    rt: "parent s rx = rx" "parent s ry = ry" and c: "compressed n s s2"
    and u: "union_sets x y s = Some (Inr s')"
    and cc: "component_count s' = component_count s - 1"
    and p: "parent s' = (parent s2)
          ((if rank s rx < rank s ry then rx else ry) := (if rank s rx < rank s ry then ry else rx))"
    and rk: "rank s' = (if rank s rx = rank s ry then (rank s)(rx := rank s rx + 1) else rank s)"
    and fr: "\<forall>u. in_range n u \<longrightarrow>
           find_root u s' =
             (if find_root u s = Some (if rank s rx < rank s ry then rx else ry)
              then Some (if rank s rx < rank s ry then ry else rx) else find_root u s)"
    by auto
  have p2: "parent s2 rx = rx" "parent s2 ry = ry"
    using compressed_roots [OF inv c] rt by simp_all
  have frx: "find_root x s' = Some (if rank s rx < rank s ry then ry else rx)"
    using fr assms(3,5,7) by auto
  have fry: "find_root y s' = Some (if rank s rx < rank s ry then ry else rx)"
    using fr assms(4,6,7) by auto
  show ?thesis
    using u cc p2 assms(7) frx fry by (auto simp: p rk)
qed

theorem union_by_rank_witness:
  "\<exists>s s'. reach 3 [Union 0 1] = Some (Inr s) \<and>
     find_root 2 s = Some 2 \<and> find_root 1 s = Some 0 \<and> rank s 2 < rank s 0 \<and>
     union_sets 2 1 s = Some (Inr s') \<and> component_count s' = component_count s - 1 \<and>
     parent s' 2 = 0 \<and> parent s' 0 = 0 \<and> rank s' = rank s"
proof -
  obtain s where s: "reach 3 [Union 0 1] = Some (Inr s)"
    and r: "find_root 2 s = Some 2" "find_root 1 s = Some 0" "rank s 2 < rank s 0"
    by (simp add: reach_def initialize_def init_loop.simps uf0_def in_bounds_def CAP_def
        union_sets_def find_uf.simps INT_MIN_def INT_MAX_def find_root_def)
  have ok: "list_all (op_ok 3) [Union 0 1]" "in_range 3 2" "in_range 3 1"
    by (simp_all add: in_range_def)
  have "(2::int) \<noteq> 0"
    by simp
  from union_by_rank [OF s ok r(1,2) this] r s show ?thesis
    by auto
qed

text \<open>
  C5. After \<open>initialize n\<close> and any sequence of \<open>find\<close> and \<open>union_sets\<close> calls on
  elements of \<open>[0, n)\<close>, all calls return without error, the parent mapping is a forest,
  \<open>find x\<close> returns for every \<open>x\<close> in \<open>[0, n)\<close>, and \<open>component_count\<close> is
  the number of distinct values \<open>find\<close> returns on \<open>[0, n)\<close>.
\<close>

theorem forest_termination_count:
  assumes "0 \<le> n" "n \<le> CAP" "list_all (op_ok n) ops"
  shows "\<exists>s. reach n ops = Some (Inr s) \<and>
             forest n (parent s) \<and>
             (\<forall>x. in_range n x \<longrightarrow> (\<exists>r s'. find_uf x s = Some (Inr (r, s')))) \<and>
             component_count s =
               int (card {r. \<exists>x s'. in_range n x \<and> find_uf x s = Some (Inr (r, s'))})"
proof -
  from reach_total [OF assms] obtain s where r: "reach n ops = Some (Inr s)" and inv: "uf_inv n s"
    by blast
  have "\<exists>r s'. find_uf x s = Some (Inr (r, s'))" if "in_range n x" for x
    using find_uf_spec [OF inv that] by blast
  then show ?thesis
    using r uf_inv_forest [OF inv] uf_inv_count [OF inv] find_results_roots [OF inv] by auto
qed

theorem forest_termination_count_witness:
  "\<exists>s. reach 4 [Union 0 1, Union 2 3, Find 3, Union 1 3, Find 3] = Some (Inr s) \<and>
       forest 4 (parent s) \<and>
       (\<exists>r s'. find_uf 3 s = Some (Inr (r, s'))) \<and>
       component_count s = 1"
proof -
  have n: "(0::int) \<le> 4" "4 \<le> CAP"
    by (simp_all add: CAP_def)
  have ok: "list_all (op_ok 4) [Union 0 1, Union 2 3, Find 3, Union 1 3, Find 3]"
    by (simp add: in_range_def)
  have r3: "in_range 4 3"
    by (simp add: in_range_def)
  from forest_termination_count [OF n ok] obtain s where
    s: "reach 4 [Union 0 1, Union 2 3, Find 3, Union 1 3, Find 3] = Some (Inr s)"
    "forest 4 (parent s)"
    "\<forall>x. in_range 4 x \<longrightarrow> (\<exists>r s'. find_uf x s = Some (Inr (r, s')))"
    by blast
  have "\<exists>t. reach 4 [Union 0 1, Union 2 3, Find 3, Union 1 3, Find 3] = Some (Inr t) \<and>
            component_count t = 1"
    by (simp add: reach_def initialize_def init_loop.simps uf0_def in_bounds_def CAP_def
        union_sets_def find_uf.simps INT_MIN_def INT_MAX_def)
  with s(1) have "component_count s = 1"
    by auto
  with s r3 show ?thesis
    by blast
qed

text \<open>
  C6. In every state reached from \<open>initialize n\<close> by calls on elements of \<open>[0, n)\<close>,
  \<open>find x\<close> for \<open>x\<close> in \<open>[0, n)\<close> returns a value \<open>y\<close> with \<open>find y = y\<close>, both in
  the state \<open>find x\<close> leaves behind and in the state before it.
\<close>

theorem find_returns_root:
  assumes "reach n ops = Some (Inr s)" "list_all (op_ok n) ops" "in_range n x"
  shows "\<exists>y s'. find_uf x s = Some (Inr (y, s')) \<and> in_range n y \<and>
           find_uf y s' = Some (Inr (y, s')) \<and> find_uf y s = Some (Inr (y, s))"
proof -
  have inv: "uf_inv n s"
    using assms(1,2) in_range_nonneg [OF assms(3)] by (rule reach_inv)
  from find_uf_spec [OF inv assms(3)] obtain y s' where
    f: "find_uf x s = Some (Inr (y, s'))" and y: "in_range n y" "parent s y = y" "parent s' y = y"
    by blast
  have b: "in_bounds y"
    using uf_inv_cap [OF inv] y(1) by (rule in_range_in_bounds)
  from f y(1) find_uf_at_root [OF b y(3)] find_uf_at_root [OF b y(2)] show ?thesis
    by blast
qed

theorem find_returns_root_witness:
  "\<exists>s y s'. reach 4 [Union 0 1, Union 2 3, Union 0 2] = Some (Inr s) \<and>
     find_uf 3 s = Some (Inr (y, s')) \<and> y = 0 \<and> find_uf y s' = Some (Inr (y, s'))"
proof -
  obtain s where s: "reach 4 [Union 0 1, Union 2 3, Union 0 2] = Some (Inr s)"
    and r: "find_root 3 s = Some 0"
    by (simp add: reach_def initialize_def init_loop.simps uf0_def in_bounds_def CAP_def
        union_sets_def find_uf.simps INT_MIN_def INT_MAX_def find_root_def)
  have ok: "list_all (op_ok 4) [Union 0 1, Union 2 3, Union 0 2]"
    by (simp add: in_range_def)
  have "in_range 4 3"
    by (simp add: in_range_def)
  from find_returns_root [OF s ok this] r s show ?thesis
    by (auto simp: find_root_def)
qed

text \<open>
  C7 as stated says that \<open>union_sets x y\<close> has no side effect when \<open>find x\<close> and
  \<open>find y\<close> agree. The two \<open>find\<close> calls compress paths all the same: after
  \<open>union(0,1)\<close>, \<open>union(2,3)\<close>, \<open>union(0,2)\<close> node 3 points to 2, and the call
  \<open>union(3,0)\<close>, between two members of one component, re-points it to 0.
\<close>

theorem union_no_side_effect_counterexample:
  "\<exists>s s'. reach 4 [Union 0 1, Union 2 3, Union 0 2] = Some (Inr s) \<and>
     find_root 3 s = find_root 0 s \<and>
     union_sets 3 0 s = Some (Inr s') \<and> parent s 3 = 2 \<and> parent s' 3 = 0 \<and> s' \<noteq> s"
proof -
  have "\<exists>s s'. reach 4 [Union 0 1, Union 2 3, Union 0 2] = Some (Inr s) \<and>
     find_root 3 s = find_root 0 s \<and>
     union_sets 3 0 s = Some (Inr s') \<and> parent s 3 = 2 \<and> parent s' 3 = 0"
    by (simp add: reach_def initialize_def init_loop.simps uf0_def in_bounds_def CAP_def
        union_sets_def find_uf.simps INT_MIN_def INT_MAX_def find_root_def)
  then show ?thesis
    by fastforce
qed

text \<open>
  C7, amended. When \<open>find x\<close> and \<open>find y\<close> agree, \<open>union_sets x y\<close> changes neither
  \<open>component_count\<close> nor any rank nor the representative of any element; its only
  effect is the path compression of its two \<open>find\<close> calls (\<open>compressed_by\<close>): the
  state it leaves is the one \<open>find x\<close> followed by \<open>find y\<close> leaves, and a parent
  pointer changes only for nodes on the paths from \<open>x\<close> and from \<open>y\<close>, which then
  point to their unchanged root. Calling \<open>union_sets x y\<close> twice in a row, the second
  call is of that kind: it leaves \<open>component_count\<close> unchanged, so that adding it to
  \<open>F\<close> adds the same value again.
\<close>

theorem union_same_root:
  assumes "reach n ops = Some (Inr s)" "list_all (op_ok n) ops"
    and "in_range n x" "in_range n y"
  shows "\<exists>s1 s2. union_sets x y s = Some (Inr s1) \<and> union_sets x y s1 = Some (Inr s2) \<and>
           (find_root x s = find_root y s \<longrightarrow>
              component_count s1 = component_count s \<and> rank s1 = rank s \<and>
              compressed n s s1 \<and> compressed_by x y s s1 \<and>
              (\<forall>u. in_range n u \<longrightarrow> find_root u s1 = find_root u s)) \<and>
           component_count s2 = component_count s1 \<and> rank s2 = rank s1 \<and>
           compressed n s1 s2 \<and> compressed_by x y s1 s2 \<and>
           (\<forall>u. in_range n u \<longrightarrow> find_root u s2 = find_root u s1) \<and>
           (\<forall>st. add_F (component_count s2) st = add_F (component_count s1) st)"
proof -
  have inv: "uf_inv n s"
    using assms(1,2) in_range_nonneg [OF assms(3)] by (rule reach_inv)
  have same: "\<exists>t'. union_sets x y t = Some (Inr t') \<and> uf_inv n t' \<and>
      component_count t' = component_count t \<and> rank t' = rank t \<and> compressed n t t' \<and>
      compressed_by x y t t' \<and>
      (\<forall>u. in_range n u \<longrightarrow> find_root u t' = find_root u t)"
    if t: "uf_inv n t" and eq: "find_root x t = find_root y t" for t
  proof -
    from union_sets_same_root [OF t assms(3,4) eq] obtain t' where
      u: "union_sets x y t = Some (Inr t')" and c: "compressed n t t'" and i: "uf_inv n t'"
      and b: "compressed_by x y t t'"
      by blast
    from c have "component_count t' = component_count t" "rank t' = rank t"
      by (simp_all add: compressed_def)
    with u c i b compressed_find_root [OF t c] show ?thesis
      by blast
  qed
  from union_sets_spec [OF inv assms(3,4)] obtain rx ry s1 where
    frx: "find_root x s = Some rx" and fry: "find_root y s = Some ry"
    and u1: "union_sets x y s = Some (Inr s1)" and inv1: "uf_inv n s1"
    and fr: "rx \<noteq> ry \<longrightarrow> (\<forall>u. in_range n u \<longrightarrow>
           find_root u s1 =
             (if find_root u s = Some (if rank s rx < rank s ry then rx else ry)
              then Some (if rank s rx < rank s ry then ry else rx) else find_root u s))"
    and eq: "rx = ry \<longrightarrow> compressed n s s1"
    by blast
  have "find_root x s1 = find_root y s1"
  proof (cases "rx = ry")
    case True
    with eq have "compressed n s s1"
      by simp
    from compressed_find_root [OF inv this] assms(3,4) frx fry True show ?thesis
      by simp
  next
    case False
    with fr assms(3,4) frx fry show ?thesis
      by auto
  qed
  from same [OF inv1 this] obtain s2 where
    s2: "union_sets x y s1 = Some (Inr s2)" "component_count s2 = component_count s1"
    "rank s2 = rank s1" "compressed n s1 s2" "compressed_by x y s1 s2"
    "\<forall>u. in_range n u \<longrightarrow> find_root u s2 = find_root u s1"
    by blast
  have "component_count s1 = component_count s \<and> rank s1 = rank s \<and> compressed n s s1 \<and>
      compressed_by x y s s1 \<and>
      (\<forall>u. in_range n u \<longrightarrow> find_root u s1 = find_root u s)"
    if "find_root x s = find_root y s"
    using same [OF inv that] u1 by auto
  with u1 s2 show ?thesis
    by auto
qed

theorem union_same_root_witness:
  "\<exists>s s1 s2. reach 4 [Union 0 1, Union 2 3, Union 0 2] = Some (Inr s) \<and>
     find_root 3 s = find_root 0 s \<and>
     union_sets 3 0 s = Some (Inr s1) \<and> union_sets 3 0 s1 = Some (Inr s2) \<and>
     component_count s1 = component_count s \<and> rank s1 = rank s \<and>
     compressed_by 3 0 s s1 \<and> parent s 3 = 2 \<and> parent s1 3 = 0 \<and>
     parent s1 2 = parent s 2 \<and> parent s1 1 = parent s 1 \<and>
     component_count s2 = component_count s1 \<and> compressed_by 3 0 s1 s2"
proof -
  obtain s where s: "reach 4 [Union 0 1, Union 2 3, Union 0 2] = Some (Inr s)"
    and r: "find_root 3 s = find_root 0 s" "parent s 3 = 2"
      "\<exists>t. union_sets 3 0 s = Some (Inr t) \<and> parent t 3 = 0 \<and>
         parent t 2 = parent s 2 \<and> parent t 1 = parent s 1"
    by (simp add: reach_def initialize_def init_loop.simps uf0_def in_bounds_def CAP_def
        union_sets_def find_uf.simps INT_MIN_def INT_MAX_def find_root_def)
  have ok: "list_all (op_ok 4) [Union 0 1, Union 2 3, Union 0 2]" "in_range 4 3" "in_range 4 0"
    by (simp_all add: in_range_def)
  from union_same_root [OF s ok] r s show ?thesis
    by auto
qed

text \<open>
  C10. \<open>find x\<close> never changes the partition: two elements of \<open>[0, n)\<close> have the same
  representative after the call exactly when they had before it (each keeps its
  representative); no rank and not \<open>component_count\<close> changes; and every parent pointer
  that changes belongs to a node on the path from \<open>x\<close> and now points to that node's
  unchanged root, the value returned.
\<close>

theorem find_keeps_partition:
  assumes "reach n ops = Some (Inr s)" "list_all (op_ok n) ops" "in_range n x"
  shows "\<exists>r s'. find_uf x s = Some (Inr (r, s')) \<and>
           rank s' = rank s \<and> component_count s' = component_count s \<and>
           (\<forall>u v. in_range n u \<and> in_range n v \<longrightarrow>
              (find_root u s' = find_root v s') = (find_root u s = find_root v s)) \<and>
           (\<forall>u. in_range n u \<longrightarrow> find_root u s' = find_root u s) \<and>
           (\<forall>u. parent s' u \<noteq> parent s u \<longrightarrow>
              parent s' u = r \<and> find_root u s = Some r \<and> (\<exists>k. u = (parent s ^^ k) x))"
proof -
  have inv: "uf_inv n s"
    using assms(1,2) in_range_nonneg [OF assms(3)] by (rule reach_inv)
  from find_uf_spec [OF inv assms(3)] obtain r s' where
    f: "find_uf x s = Some (Inr (r, s'))" and c: "compressed n s s'"
    and ch: "\<forall>u. parent s' u \<noteq> parent s u \<longrightarrow>
                parent s' u = r \<and> (\<exists>k. u = (parent s ^^ k) x)"
    by blast
  have fr: "find_root u s' = find_root u s" if "in_range n u" for u
    using inv c that by (rule compressed_find_root)
  have mv: "parent s' u = r \<and> find_root u s = Some r \<and> (\<exists>k. u = (parent s ^^ k) x)"
    if "parent s' u \<noteq> parent s u" for u
    using that c ch by (auto simp: compressed_def)
  have eq: "(find_root u s' = find_root v s') = (find_root u s = find_root v s)"
    if "in_range n u \<and> in_range n v" for u v
    using that fr by simp
  have "rank s' = rank s" "component_count s' = component_count s"
    using c by (simp_all add: compressed_def)
  with f fr mv eq show ?thesis
    by blast
qed

theorem find_keeps_partition_witness:
  "\<exists>s r s'. reach 4 [Union 0 1, Union 2 3, Union 0 2] = Some (Inr s) \<and>
     find_uf 3 s = Some (Inr (r, s')) \<and> parent s 3 = 2 \<and> parent s' 3 = 0 \<and>
     rank s' = rank s \<and> component_count s' = component_count s \<and>
     (find_root 3 s' = find_root 1 s') = (find_root 3 s = find_root 1 s)"
proof -
  obtain s where s: "reach 4 [Union 0 1, Union 2 3, Union 0 2] = Some (Inr s)"
    and r: "find_root 3 s = Some 0" "parent s 3 = 2"
      "\<exists>t. find_uf 3 s = Some (Inr (0, t)) \<and> parent t 3 = 0"
    by (simp add: reach_def initialize_def init_loop.simps uf0_def in_bounds_def CAP_def
        union_sets_def find_uf.simps INT_MIN_def INT_MAX_def find_root_def)
  have ok: "list_all (op_ok 4) [Union 0 1, Union 2 3, Union 0 2]" "in_range 4 3"
    by (simp_all add: in_range_def)
  have i: "in_range 4 3 \<and> in_range 4 1"
    by (simp add: in_range_def)
  from find_keeps_partition [OF s ok] obtain r' s' where
    f: "find_uf 3 s = Some (Inr (r', s'))" "rank s' = rank s"
    "component_count s' = component_count s"
    "\<forall>u v. in_range 4 u \<and> in_range 4 v \<longrightarrow>
              (find_root u s' = find_root v s') = (find_root u s = find_root v s)"
    by blast
  have "r' = 0 \<and> parent s' 3 = 0"
    using r(3) f(1) by auto
  with s f i r(2) show ?thesis
    by blast
qed

section \<open>Properties of the query loop\<close>

text \<open>
  C2. The claim gives the decoded pair as \<open>(a XOR F) mod N\<close> and \<open>(b XOR F) mod N\<close>,
  the smaller first, with the \<open>F\<close> of before the query. The source takes the
  remainder with \<open>%\<close>, which truncates towards zero and is negative for a negative
  \<open>a XOR F\<close>. On \<open>N = 2\<close> with the single query \<open>(-1, 0)\<close>, where \<open>F = 0\<close>, the
  claim's pair is \<open>(0, 1)\<close>; the source decodes \<open>(-1, 0)\<close>, and \<open>find(-1)\<close> reads
  \<open>parent[-1]\<close>.
\<close>

theorem decode_negative_operand:
  "\<exists>st. main_state 2 0 [(- 1, 0)] = Some (Inr st) \<and> F st = 0 \<and>
     decode 2 (F st) (- 1) 0 = Inr (- 1, 0) \<and>
     ((- 1) XOR F st) mod 2 = 1 \<and> (0 XOR F st) mod 2 = 0 \<and>
     find_uf (- 1) (ds st) = Some (Inl OutOfBounds) \<and>
     main_state 2 1 [(- 1, 0)] = Some (Inl OutOfBounds)"
  by (simp add: run_simps)

text \<open>
  What holds of the decoding, from the state before query \<open>k\<close> alone: \<open>F\<close> is the
  sum of \<open>component_count\<close> after each of the queries \<open>0 .. k - 1\<close>, the pair is
  built from the remainders of the source, the smaller first, it is what the loop body
  of query \<open>k\<close> works on, and for non-negative operands the remainders are those of
  \<open>mod\<close>.
\<close>

lemma decode_from_prestate:
  assumes "1 \<le> N" "0 \<le> k" "main_state N k qs = Some (Inr st)"
    and "nat k < length qs" "qs ! nat k = (a, b)"
  shows "F st = (\<Sum>j = 1..nat k. count_after N qs j) \<and>
     decode N (F st) a b =
       Inr (min ((a XOR F st) smod N) ((b XOR F st) smod N),
            max ((a XOR F st) smod N) ((b XOR F st) smod N)) \<and>
     main_state N (k + 1) qs = loop_body N k a b st \<and>
     (0 \<le> a \<and> 0 \<le> b \<longrightarrow>
        decode N (F st) a b =
          Inr (min ((a XOR F st) mod N) ((b XOR F st) mod N),
               max ((a XOR F st) mod N) ((b XOR F st) mod N)))"
proof -
  have "main_state N (int (nat k)) qs = Some (Inr st)"
    using assms(2,3) by simp
  from main_state_inv [OF assms(1) this] have f: "0 \<le> F st"
    and s: "F st = (\<Sum>j = 1..nat k. count_after N qs j)"
    by simp_all
  have "main_state N (k + 1) qs = loop_body N k a b st"
    using main_state_Suc [OF assms(2,4), of N] assms(3,5) by simp
  moreover have "decode N (F st) a b =
          Inr (min ((a XOR F st) mod N) ((b XOR F st) mod N),
               max ((a XOR F st) mod N) ((b XOR F st) mod N))" if "0 \<le> a \<and> 0 \<le> b"
  proof -
    from that have "0 \<le> a" "0 \<le> b"
      by simp_all
    from decode_nonneg [OF assms(1) this f] show ?thesis .
  qed
  ultimately show ?thesis
    using s decode_pos [OF assms(1), of "F st" a b] by simp
qed

text \<open>
  C3. The query at position \<open>k\<close> (from 0) is a merge when \<open>k\<close> is even: the decoded
  pair goes to \<open>union_sets\<close>, nothing is printed, and \<open>F\<close> grows by the resulting
  \<open>component_count\<close>, merged or not. When \<open>k\<close> is odd it is a check: the line
  \<open>1\<close> is appended to the output if \<open>find x\<close> and \<open>find y\<close> agree and \<open>0\<close>
  otherwise, and \<open>F\<close> grows by \<open>component_count\<close>. After \<open>k + 1\<close> queries the
  output has one line per odd position, \<open>(k + 1) div 2\<close> lines. On valid input the
  queries are all processed.
\<close>

theorem query_alternation:
  assumes "1 \<le> N" "0 \<le> k"
  shows "(valid_input N (k + 1) qs \<longrightarrow> (\<exists>st'. main_state N (k + 1) qs = Some (Inr st'))) \<and>
     (\<forall>st'. main_state N (k + 1) qs = Some (Inr st') \<longrightarrow>
        (\<exists>st a b x y.
           main_state N k qs = Some (Inr st) \<and> qs ! nat k = (a, b) \<and>
           decode N (F st) a b = Inr (x, y) \<and>
           F st' = F st + component_count (ds st') \<and>
           (k mod 2 = 0 \<longrightarrow>
              union_sets x y (ds st) = Some (Inr (ds st')) \<and> out st' = out st) \<and>
           (k mod 2 \<noteq> 0 \<longrightarrow>
              compressed N (ds st) (ds st') \<and>
              out st' = out st @
                [if find_root x (ds st) = find_root y (ds st) then ''1'' else ''0'']) \<and>
           length (out st') = nat (k + 1) div 2 \<and>
           main N (k + 1) qs = Some (Inr (out st'))))"
proof (intro conjI impI allI)
  assume v: "valid_input N (k + 1) qs"
  have "nat (k + 1) \<le> nat (k + 1)"
    by simp
  from main_state_valid [OF v this] assms(2) show "\<exists>st'. main_state N (k + 1) qs = Some (Inr st')"
    by simp
next
  fix st'
  assume m: "main_state N (k + 1) qs = Some (Inr st')"
  from main_step [OF assms m] obtain st a b x y where
    *: "main_state N k qs = Some (Inr st)" "qs ! nat k = (a, b)"
    "decode N (F st) a b = Inr (x, y)" "F st' = F st + component_count (ds st')"
    "k mod 2 = 0 \<longrightarrow> union_sets x y (ds st) = Some (Inr (ds st')) \<and> out st' = out st"
    "k mod 2 \<noteq> 0 \<longrightarrow> compressed N (ds st) (ds st') \<and>
        out st' = out st @ [if find_root x (ds st) = find_root y (ds st) then ''1'' else ''0'']"
    by (elim exE conjE) (rule that)
  have "main_state N (int (nat (k + 1))) qs = Some (Inr st')"
    using m assms(2) by simp
  from main_state_inv [OF assms(1) this] have l: "length (out st') = nat (k + 1) div 2"
    by simp
  have "main N (k + 1) qs = Some (Inr (out st'))"
    using m by (simp add: main_def)
  then have mn: "main N (k + 1) qs = Some (Inr (out st'))" .
  show "\<exists>st a b x y.
           main_state N k qs = Some (Inr st) \<and> qs ! nat k = (a, b) \<and>
           decode N (F st) a b = Inr (x, y) \<and>
           F st' = F st + component_count (ds st') \<and>
           (k mod 2 = 0 \<longrightarrow>
              union_sets x y (ds st) = Some (Inr (ds st')) \<and> out st' = out st) \<and>
           (k mod 2 \<noteq> 0 \<longrightarrow>
              compressed N (ds st) (ds st') \<and>
              out st' = out st @
                [if find_root x (ds st) = find_root y (ds st) then ''1'' else ''0'']) \<and>
           length (out st') = nat (k + 1) div 2 \<and>
           main N (k + 1) qs = Some (Inr (out st'))"
    by (intro exI [of _ st] exI [of _ a] exI [of _ b] exI [of _ x] exI [of _ y] conjI)
      (fact * l mn)+
qed

theorem query_alternation_witness:
  "valid_input 3 (3 + 1) [(0, 1), (0, 2), (5, 4), (7, 6)] \<and>
   (\<exists>st st'. main_state 3 (3 + 1) [(0, 1), (0, 2), (5, 4), (7, 6)] = Some (Inr st') \<and>
      main_state 3 3 [(0, 1), (0, 2), (5, 4), (7, 6)] = Some (Inr st) \<and>
      out st = [''0''] \<and> out st' = [''0'', ''1''] \<and>
      F st' = F st + component_count (ds st') \<and>
      main 3 (3 + 1) [(0, 1), (0, 2), (5, 4), (7, 6)] = Some (Inr [''0'', ''1'']))"
proof -
  let ?qs = "[(0, 1), (0, 2), (5, 4), (7, 6)] :: (int \<times> int) list"
  have v: "valid_input 3 (3 + 1) ?qs"
    by (simp add: valid_input_def CAP_def INT_MAX_def LLONG_MAX_def)
  have n: "(1::int) \<le> 3" "(0::int) \<le> 3"
    by simp_all
  note q = query_alternation [OF n, of ?qs]
  from q v obtain st' where m: "main_state 3 (3 + 1) ?qs = Some (Inr st')"
    by blast
  obtain t where t: "main_state 3 3 ?qs = Some (Inr t)" "out t = [''0'']"
    by (simp add: run_simps)
  have "\<exists>u. main_state 3 (3 + 1) ?qs = Some (Inr u) \<and> out u = [''0'', ''1'']"
    by (simp add: run_simps)
  with m have o: "out st' = [''0'', ''1'']"
    by auto
  from q m obtain st where
    "main_state 3 3 ?qs = Some (Inr st)" "F st' = F st + component_count (ds st')"
    "main 3 (3 + 1) ?qs = Some (Inr (out st'))"
    by blast
  with v m t o show ?thesis
    by auto
qed

text \<open>
  C4. For \<open>N \<ge> 1\<close> and every query stream the run of \<open>main\<close> returns (or stops at
  an error), and in every state it passes \<open>component_count\<close> lies in \<open>[1, N]\<close>; a step
  never increases it, a merge step decreases it (by exactly 1) exactly when the roots of
  the two decoded elements were distinct before, and a check step leaves it unchanged.
\<close>

theorem count_range_monotone:
  assumes "1 \<le> N" "0 \<le> k"
  shows "(\<exists>r. main_state N k qs = Some r) \<and>
     (\<forall>st. main_state N k qs = Some (Inr st) \<longrightarrow>
        1 \<le> component_count (ds st) \<and> component_count (ds st) \<le> N) \<and>
     (\<forall>st'. main_state N (k + 1) qs = Some (Inr st') \<longrightarrow>
        (\<exists>st a b x y.
           main_state N k qs = Some (Inr st) \<and> qs ! nat k = (a, b) \<and>
           decode N (F st) a b = Inr (x, y) \<and>
           component_count (ds st') \<le> component_count (ds st) \<and>
           (k mod 2 = 0 \<longrightarrow>
              (component_count (ds st') < component_count (ds st)) =
                (find_root x (ds st) \<noteq> find_root y (ds st)) \<and>
              component_count (ds st') =
                (if find_root x (ds st) = find_root y (ds st) then component_count (ds st)
                 else component_count (ds st) - 1)) \<and>
           (k mod 2 \<noteq> 0 \<longrightarrow> component_count (ds st') = component_count (ds st))))"
proof (intro conjI allI impI)
  show "\<exists>r. main_state N k qs = Some r"
    using assms(1) by (rule main_state_Some)
next
  fix st
  assume "main_state N k qs = Some (Inr st)"
  then have "main_state N (int (nat k)) qs = Some (Inr st)"
    using assms(2) by simp
  from main_state_inv [OF assms(1) this] have "uf_inv N (ds st)"
    by simp
  from uf_inv_count_range [OF this assms(1)]
  show "1 \<le> component_count (ds st)" "component_count (ds st) \<le> N" .
next
  fix st'
  assume m: "main_state N (k + 1) qs = Some (Inr st')"
  from main_step [OF assms m] obtain st a b x y where
    m0: "main_state N k qs = Some (Inr st)" and q: "qs ! nat k = (a, b)"
    and d: "decode N (F st) a b = Inr (x, y)"
    and x: "in_range N x" and y: "in_range N y" and inv: "uf_inv N (ds st)"
    and e: "k mod 2 = 0 \<longrightarrow> union_sets x y (ds st) = Some (Inr (ds st')) \<and> out st' = out st"
    and o: "k mod 2 \<noteq> 0 \<longrightarrow> compressed N (ds st) (ds st') \<and>
        out st' = out st @ [if find_root x (ds st) = find_root y (ds st) then ''1'' else ''0'']"
    by (elim exE conjE) (rule that)
  let ?c = "component_count (ds st)" and ?c' = "component_count (ds st')"
  have ev: "?c' = (if find_root x (ds st) = find_root y (ds st) then ?c else ?c - 1)"
    if "k mod 2 = 0"
    using e that union_sets_count [OF inv x y] by simp
  have od: "?c' = ?c" if "k mod 2 \<noteq> 0"
    using o that by (simp add: compressed_def)
  have le: "?c' \<le> ?c"
    using ev od by (cases "k mod 2 = 0") (simp_all split: if_splits)
  have ev': "k mod 2 = 0 \<longrightarrow>
      (?c' < ?c) = (find_root x (ds st) \<noteq> find_root y (ds st)) \<and>
      ?c' = (if find_root x (ds st) = find_root y (ds st) then ?c else ?c - 1)"
    using ev by simp
  have od': "k mod 2 \<noteq> 0 \<longrightarrow> ?c' = ?c"
    using od by simp
  show "\<exists>st a b x y.
           main_state N k qs = Some (Inr st) \<and> qs ! nat k = (a, b) \<and>
           decode N (F st) a b = Inr (x, y) \<and>
           component_count (ds st') \<le> component_count (ds st) \<and>
           (k mod 2 = 0 \<longrightarrow>
              (component_count (ds st') < component_count (ds st)) =
                (find_root x (ds st) \<noteq> find_root y (ds st)) \<and>
              component_count (ds st') =
                (if find_root x (ds st) = find_root y (ds st) then component_count (ds st)
                 else component_count (ds st) - 1)) \<and>
           (k mod 2 \<noteq> 0 \<longrightarrow> component_count (ds st') = component_count (ds st))"
    by (intro exI [of _ st] exI [of _ a] exI [of _ b] exI [of _ x] exI [of _ y] conjI)
      (fact m0 q d le ev' od')+
qed

theorem count_range_monotone_witness:
  "\<exists>st st'. main_state 3 2 [(0, 1), (0, 2), (5, 4)] = Some (Inr st) \<and>
     main_state 3 (2 + 1) [(0, 1), (0, 2), (5, 4)] = Some (Inr st') \<and>
     component_count (ds st) = 2 \<and> component_count (ds st') = 2 \<and>
     1 \<le> component_count (ds st) \<and> component_count (ds st) \<le> 3 \<and>
     component_count (ds st') \<le> component_count (ds st)"
proof -
  let ?qs = "[(0, 1), (0, 2), (5, 4)] :: (int \<times> int) list"
  have n: "(1::int) \<le> 3" "(0::int) \<le> 2"
    by simp_all
  note c = count_range_monotone [OF n, of ?qs]
  obtain t where t: "main_state 3 2 ?qs = Some (Inr t)" "component_count (ds t) = 2"
    by (simp add: run_simps)
  obtain t' where t': "main_state 3 (2 + 1) ?qs = Some (Inr t')" "component_count (ds t') = 2"
    by (simp add: run_simps)
  from c t(1) have "1 \<le> component_count (ds t) \<and> component_count (ds t) \<le> 3"
    by blast
  moreover from c t' obtain u where "main_state 3 2 ?qs = Some (Inr u)"
    "component_count (ds t') \<le> component_count (ds u)"
    by blast
  ultimately show ?thesis
    using t t' by auto
qed

text \<open>
  C8 as stated admits every \<open>N \<ge> 1\<close> and every pair of 64-bit operands. The arrays
  hold 100005 entries, so with \<open>N = 100006\<close> the index 100005 is decoded and lies
  outside them; and for a negative operand the remainder of the source is negative:
  \<open>(-1 ^ 0) % 2 = -1\<close>, and \<open>find(-1)\<close> reads \<open>parent[-1]\<close>.
\<close>

theorem decoded_in_range_counterexample:
  "main 2 1 [(- 1, 0)] = Some (Inl OutOfBounds) \<and>
   decode 2 0 (- 1) 0 = Inr (- 1, 0) \<and>
   find_uf (- 1) uf0 = Some (Inl OutOfBounds) \<and>
   main 100006 1 [(100005, 100005)] = Some (Inl OutOfBounds) \<and>
   decode 100006 0 100005 100005 = Inr (100005, 100005) \<and>
   find_uf 100005 uf0 = Some (Inl OutOfBounds)"
proof -
  have "initialize 100006 uf0 = Inl OutOfBounds"
    by (rule initialize_overflow) (simp add: CAP_def)
  then have "main 100006 1 [(100005, 100005)] = Some (Inl OutOfBounds)"
    by (simp add: main_def main_state_def)
  moreover have "main 2 1 [(- 1, 0)] = Some (Inl OutOfBounds)"
    by (simp add: run_simps)
  moreover have "decode 2 0 (- 1) 0 = Inr (- 1, 0)"
    "decode 100006 0 100005 100005 = Inr (100005, 100005)"
    by (simp_all add: decode_def signed_modulo_int_def)
  moreover have "find_uf (- 1) uf0 = Some (Inl OutOfBounds)"
    "find_uf 100005 uf0 = Some (Inl OutOfBounds)"
    by (simp_all add: find_uf_out_of_bounds in_bounds_def CAP_def)
  ultimately show ?thesis
    by simp
qed

text \<open>
  C8, amended. For \<open>1 \<le> N \<le> 100005\<close>, \<open>0 \<le> Q \<le> INT_MAX\<close>, at least \<open>Q\<close> pairs
  on the input and non-negative operands, the run of \<open>main\<close> ends without any error
  (no access out of bounds, no overflow), and the indices decoded for every query lie in
  \<open>[0, N)\<close>, within the arrays.
\<close>

theorem valid_input_in_bounds:
  assumes "valid_input N Q qs"
  shows "(\<exists>st. main_state N Q qs = Some (Inr st) \<and> main N Q qs = Some (Inr (out st))) \<and>
     (\<forall>k. 0 \<le> k \<and> k < Q \<longrightarrow>
        (\<exists>st a b x y.
           main_state N k qs = Some (Inr st) \<and> qs ! nat k = (a, b) \<and>
           decode N (F st) a b = Inr (x, y) \<and>
           in_range N x \<and> in_range N y \<and> in_bounds x \<and> in_bounds y))"
proof (intro conjI allI impI)
  have N: "1 \<le> N" "N \<le> CAP" and Q: "0 \<le> Q"
    using assms by (simp_all add: valid_input_def)
  have "nat Q \<le> nat Q"
    by simp
  from main_state_valid [OF assms this] Q obtain st where
    "main_state N Q qs = Some (Inr st)"
    by auto
  then show "\<exists>st. main_state N Q qs = Some (Inr st) \<and> main N Q qs = Some (Inr (out st))"
    by (simp add: main_def)
  fix k
  assume k: "0 \<le> k \<and> k < Q"
  then have "nat (k + 1) \<le> nat Q"
    by linarith
  from main_state_valid [OF assms this] k obtain st' where
    m': "main_state N (k + 1) qs = Some (Inr st')"
    by auto
  from k have k0: "0 \<le> k"
    by simp
  from main_step [OF N(1) k0 m'] obtain st a b x y where
    *: "main_state N k qs = Some (Inr st)" "qs ! nat k = (a, b)"
    "decode N (F st) a b = Inr (x, y)" "in_range N x" "in_range N y"
    by (elim exE conjE) (rule that)
  have "in_bounds x" "in_bounds y"
    using in_range_in_bounds [OF N(2)] *(4,5) by simp_all
  with * show "\<exists>st a b x y.
           main_state N k qs = Some (Inr st) \<and> qs ! nat k = (a, b) \<and>
           decode N (F st) a b = Inr (x, y) \<and>
           in_range N x \<and> in_range N y \<and> in_bounds x \<and> in_bounds y"
    by blast
qed

theorem valid_input_in_bounds_witness:
  "valid_input 3 4 [(0, 1), (0, 2), (5, 4), (7, 6)] \<and>
   main 3 4 [(0, 1), (0, 2), (5, 4), (7, 6)] = Some (Inr [''0'', ''1'']) \<and>
   (\<exists>st x y. main_state 3 3 [(0, 1), (0, 2), (5, 4), (7, 6)] = Some (Inr st) \<and>
      decode 3 (F st) 7 6 = Inr (x, y) \<and> in_range 3 x \<and> in_range 3 y \<and>
      in_bounds x \<and> in_bounds y)"
proof -
  let ?qs = "[(0, 1), (0, 2), (5, 4), (7, 6)] :: (int \<times> int) list"
  have v: "valid_input 3 4 ?qs"
    by (simp add: valid_input_def CAP_def INT_MAX_def LLONG_MAX_def)
  have k: "(0::int) \<le> 3 \<and> (3::int) < 4"
    by simp
  have m: "main 3 4 ?qs = Some (Inr [''0'', ''1''])"
    by (simp add: run_simps)
  from valid_input_in_bounds [OF v] k obtain st a b x y where
    "main_state 3 3 ?qs = Some (Inr st)" "?qs ! nat 3 = (a, b)"
    "decode 3 (F st) a b = Inr (x, y)" "in_range 3 x" "in_range 3 y" "in_bounds x" "in_bounds y"
    by blast
  moreover from this(2) have "a = 7" "b = 6"
    by (simp_all add: eval_nat_numeral)
  ultimately show ?thesis
    using v m by blast
qed

section \<open>The worked example\<close>

text \<open>
  C9. On \<open>N = 2\<close>, \<open>Q = 2\<close> with the pairs \<open>(0, 1)\<close> and \<open>(0, 1)\<close>: \<open>F\<close> starts at 0;
  query 0 decodes to \<open>(0, 1)\<close>, the union merges, the counter goes from 2 to 1 and
  \<open>F\<close> becomes 1; query 1 gives \<open>x = 1\<close>, \<open>y = 0\<close>, swapped to \<open>(0, 1)\<close>;
  \<open>find 0\<close> and \<open>find 1\<close> agree, and the whole output is the single line \<open>1\<close>.
\<close>

theorem example_run:
  "\<exists>s0 st1.
     initialize 2 uf0 = Inr s0 \<and> component_count s0 = 2 \<and>
     decode 2 0 0 1 = Inr (0, 1) \<and>
     union_sets 0 1 s0 = Some (Inr (ds st1)) \<and>
     find_root 0 s0 \<noteq> find_root 1 s0 \<and>
     loop_body 2 0 0 1 \<lparr>ds = s0, F = 0, out = []\<rparr> = Some (Inr st1) \<and>
     component_count (ds st1) = 1 \<and> F st1 = 1 \<and> out st1 = [] \<and>
     (0 XOR F st1) smod 2 = 1 \<and> (1 XOR F st1) smod 2 = 0 \<and>
     decode 2 (F st1) 0 1 = Inr (0, 1) \<and>
     find_root 0 (ds st1) = find_root 1 (ds st1) \<and>
     main_state 2 1 [(0, 1), (0, 1)] = Some (Inr st1) \<and>
     main 2 2 [(0, 1), (0, 1)] = Some (Inr [''1''])"
  by (simp add: main_def main_state_def initialize_def init_loop.simps uf0_def in_bounds_def CAP_def
      loop_body_def decode_def union_sets_def bind_res_def find_uf.simps find_root_def
      add_F_def LLONG_MAX_def LLONG_MIN_def INT_MIN_def INT_MAX_def signed_modulo_int_def)

end
